theory Spec2Isabelle
  imports Main "HOL-Library.AList" "HOL-Library.Multiset"
begin

section \<open>The proving broker: data model\<close>

text \<open>
  A shallow embedding of the class \<open>ProvingBroker\<close>. Every public method is a function from
  the broker state to an outcome and the state it leaves behind. Two things the methods
  read from their environment are arguments of the model:
  \<^item> \<open>now\<close>, the value of \<open>timeSource()\<close> during the call;
  \<^item> \<open>dbOk\<close>, whether the awaited database call of the method resolves (\<open>True\<close>) or
    rejects (\<open>False\<close>); a rejected call leaves the method at that \<open>await\<close>.
  A method is modelled as one atomic step: interleavings of two methods at an \<open>await\<close> are
  outside the model.
\<close>

text \<open>
  Modelled from the spec: the enumeration \<open>ProvingRequestType\<close> is declared in
  \<open>@aztec/circuit-types\<close>. Its members are the twelve keys of the \<open>queues\<close> initialiser,
  which is also the list of section 3 of the specification.
\<close>

datatype ProvingRequestType =
    PUBLIC_VM
  | TUBE_PROOF
  | PRIVATE_KERNEL_EMPTY
  | PRIVATE_BASE_ROLLUP
  | PUBLIC_BASE_ROLLUP
  | MERGE_ROLLUP
  | ROOT_ROLLUP
  | BLOCK_MERGE_ROLLUP
  | BLOCK_ROOT_ROLLUP
  | EMPTY_BLOCK_ROOT_ROLLUP
  | BASE_PARITY
  | ROOT_PARITY

text \<open>
  Modelled from the spec: \<open>Object.values(ProvingRequestType)\<close> restricted to its numbers,
  that is every member of the enumeration once. The order of declaration is not known;
  \<open>getProvingJob\<close> sorts the list before it uses it.
\<close>

definition ProvingRequestType_values :: "ProvingRequestType list" where
  "ProvingRequestType_values =
     [PUBLIC_VM, TUBE_PROOF, PRIVATE_KERNEL_EMPTY, PRIVATE_BASE_ROLLUP, PUBLIC_BASE_ROLLUP,
      MERGE_ROLLUP, ROOT_ROLLUP, BLOCK_MERGE_ROLLUP, BLOCK_ROOT_ROLLUP,
      EMPTY_BLOCK_ROOT_ROLLUP, BASE_PARITY, ROOT_PARITY]"

type_synonym V2ProvingJobId = string

text \<open>
  Modelled from the spec: \<open>V2ProvingJob\<close>, \<open>V2ProvingJobResult\<close> and
  \<open>V2ProvingJobStatus\<close> are declared in \<open>@aztec/circuit-types\<close>. The broker reads the
  fields \<open>id\<close>, \<open>type\<close> and \<open>blockNumber\<close> of a job; \<open>inputs\<close> is the opaque payload.
\<close>

record V2ProvingJob =
  job_id :: V2ProvingJobId
  job_type :: ProvingRequestType
  blockNumber :: int
  inputs :: string

type_synonym V2ProvingResult = string

datatype V2ProvingJobResult =
    ResultValue V2ProvingResult
  | ResultError string

datatype V2ProvingJobStatus =
    NotFound
  | InQueue
  | InProgress
  | Resolved V2ProvingResult
  | Rejected string

record InProgressMetadata =
  meta_id :: V2ProvingJobId
  startedAt :: int
  lastUpdatedAt :: int

record ProvingJobFilter =
  allowList :: "ProvingRequestType list option"

datatype broker_error =
    DuplicateIdConflict
  | StoreUnavailable

subsection \<open>The durable store\<close>

text \<open>
  Modelled from the spec: the interface \<open>ProvingBrokerDatabase\<close> is not part of the
  sources. Section 6 of the specification gives its contract: \<open>add_job\<close>,
  \<open>set_result\<close>, \<open>delete_job_and_result\<close> and \<open>iterate_all\<close>. The store is two maps
  from job ids; the sequence that \<open>iterate_all\<close> yields is an argument of \<open>start\<close>.
\<close>

record ProvingBrokerDatabase =
  dbJobs :: "V2ProvingJobId \<rightharpoonup> V2ProvingJob"
  dbResults :: "V2ProvingJobId \<rightharpoonup> V2ProvingJobResult"

definition addProvingJob :: "V2ProvingJob \<Rightarrow> ProvingBrokerDatabase \<Rightarrow> ProvingBrokerDatabase" where
  "addProvingJob job db = db\<lparr>dbJobs := (dbJobs db)(job_id job \<mapsto> job)\<rparr>"

definition setProvingJobResult ::
  "V2ProvingJobId \<Rightarrow> V2ProvingResult \<Rightarrow> ProvingBrokerDatabase \<Rightarrow> ProvingBrokerDatabase" where
  "setProvingJobResult i v db = db\<lparr>dbResults := (dbResults db)(i \<mapsto> ResultValue v)\<rparr>"

definition setProvingJobError ::
  "V2ProvingJobId \<Rightarrow> string \<Rightarrow> ProvingBrokerDatabase \<Rightarrow> ProvingBrokerDatabase" where
  "setProvingJobError i err db = db\<lparr>dbResults := (dbResults db)(i \<mapsto> ResultError err)\<rparr>"

definition deleteProvingJobAndResult ::
  "V2ProvingJobId \<Rightarrow> ProvingBrokerDatabase \<Rightarrow> ProvingBrokerDatabase" where
  "deleteProvingJobAndResult i db =
     db\<lparr>dbJobs := (dbJobs db)(i := None), dbResults := (dbResults db)(i := None)\<rparr>"

definition emptyDatabase :: ProvingBrokerDatabase where
  "emptyDatabase = \<lparr>dbJobs = Map.empty, dbResults = Map.empty\<rparr>"

subsection \<open>Comparators\<close>

definition provingJobComparator :: "V2ProvingJob \<Rightarrow> V2ProvingJob \<Rightarrow> int" where
  "provingJobComparator a b =
     (if blockNumber a < blockNumber b then - 1
      else if blockNumber a > blockNumber b then 1
      else 0)"

definition PROOF_TYPES_IN_PRIORITY_ORDER :: "ProvingRequestType list" where
  "PROOF_TYPES_IN_PRIORITY_ORDER =
     [BLOCK_ROOT_ROLLUP, BLOCK_MERGE_ROLLUP, ROOT_ROLLUP, MERGE_ROLLUP, PUBLIC_BASE_ROLLUP,
      PRIVATE_BASE_ROLLUP, PUBLIC_VM, TUBE_PROOF, ROOT_PARITY, BASE_PARITY,
      EMPTY_BLOCK_ROOT_ROLLUP, PRIVATE_KERNEL_EMPTY]"

text \<open>\<open>Array.prototype.indexOf\<close>: the first position of the element, \<open>-1\<close> when absent.\<close>

fun indexOf :: "'a list \<Rightarrow> 'a \<Rightarrow> int" where
  "indexOf [] a = - 1"
| "indexOf (x # xs) a =
     (if x = a then 0 else (let i = indexOf xs a in if i = - 1 then - 1 else i + 1))"

definition proofTypeComparator :: "ProvingRequestType \<Rightarrow> ProvingRequestType \<Rightarrow> int" where
  "proofTypeComparator a b =
     (let indexOfA = indexOf PROOF_TYPES_IN_PRIORITY_ORDER a;
          indexOfB = indexOf PROOF_TYPES_IN_PRIORITY_ORDER b
      in if indexOfA = indexOfB then 0
         else if indexOfA = - 1 then 1
         else if indexOfB = - 1 then - 1
         else if indexOfA < indexOfB then - 1
         else 1)"

text \<open>
  \<open>Array.prototype.sort\<close> with a comparator is a stable sort: an element moves in front
  of another only when the comparator puts it strictly first.
\<close>

fun insert_sorted :: "('a \<Rightarrow> 'a \<Rightarrow> int) \<Rightarrow> 'a \<Rightarrow> 'a list \<Rightarrow> 'a list" where
  "insert_sorted cmp x [] = [x]"
| "insert_sorted cmp x (y # ys) =
     (if cmp x y \<le> 0 then x # y # ys else y # insert_sorted cmp x ys)"

definition array_sort :: "('a \<Rightarrow> 'a \<Rightarrow> int) \<Rightarrow> 'a list \<Rightarrow> 'a list" where
  "array_sort cmp xs = foldr (insert_sorted cmp) xs []"

subsection \<open>The priority queue\<close>

text \<open>
  Modelled from the spec: the class \<open>PriorityMemoryQueue\<close> of \<open>@aztec/foundation/queue\<close>
  is not part of the sources. Section 4.2 of the specification: a min-ordered structure
  keyed by the comparator, ties broken first in, first out, with the operations \<open>push\<close>
  (here \<open>put\<close>, as the broker calls it) and \<open>pop_nonblocking\<close> (here \<open>getImmediate\<close>),
  which returns nothing on an empty queue. The queue is the list of its items in the order
  in which they leave: \<open>put\<close> places an item behind every item that does not compare
  greater, \<open>getImmediate\<close> takes the head.
\<close>

type_synonym 'a PriorityMemoryQueue = "'a list"

fun put :: "('a \<Rightarrow> 'a \<Rightarrow> int) \<Rightarrow> 'a \<Rightarrow> 'a PriorityMemoryQueue \<Rightarrow> 'a PriorityMemoryQueue" where
  "put cmp x [] = [x]"
| "put cmp x (y # ys) = (if cmp x y < 0 then x # y # ys else y # put cmp x ys)"

fun getImmediate :: "'a PriorityMemoryQueue \<Rightarrow> 'a option \<times> 'a PriorityMemoryQueue" where
  "getImmediate [] = (None, [])"
| "getImmediate (x # xs) = (Some x, xs)"

subsection \<open>The broker state\<close>

text \<open>
  \<open>jobsCache\<close>, \<open>resultsCache\<close> and \<open>retries\<close> are only read and written by key, so they
  are maps. \<open>inProgress\<close> is iterated by \<open>timeoutCheck\<close>, and a JavaScript \<open>Map\<close> iterates
  in the order of first insertion: it is an association list, \<open>AList.update\<close> being
  \<open>Map.set\<close> (in place for a key that is present, at the end for a new one) and
  \<open>AList.delete\<close> being \<open>Map.delete\<close>.
\<close>

record ProvingBroker =
  queues :: "ProvingRequestType \<Rightarrow> V2ProvingJob PriorityMemoryQueue"
  jobsCache :: "V2ProvingJobId \<rightharpoonup> V2ProvingJob"
  resultsCache :: "V2ProvingJobId \<rightharpoonup> V2ProvingJobResult"
  inProgress :: "(V2ProvingJobId \<times> InProgressMetadata) list"
  retries :: "V2ProvingJobId \<rightharpoonup> int"
  database :: ProvingBrokerDatabase
  proofRequestTimeoutMs :: int
  maxRetries :: int

text \<open>The constructor; the configuration defaults are 30000 ms and 3 retries.\<close>

definition newBroker :: "ProvingBrokerDatabase \<Rightarrow> int \<Rightarrow> int \<Rightarrow> ProvingBroker" where
  "newBroker db jobTimeoutMs maxRetries' =
     \<lparr>queues = (\<lambda>_. []),
      jobsCache = Map.empty,
      resultsCache = Map.empty,
      inProgress = [],
      retries = Map.empty,
      database = db,
      proofRequestTimeoutMs = jobTimeoutMs,
      maxRetries = maxRetries'\<rparr>"

definition defaultBroker :: "ProvingBrokerDatabase \<Rightarrow> ProvingBroker" where
  "defaultBroker db = newBroker db 30000 3"

section \<open>The broker: operations\<close>

definition enqueueJobInternal :: "V2ProvingJob \<Rightarrow> ProvingBroker \<Rightarrow> ProvingBroker" where
  "enqueueJobInternal job s =
     s\<lparr>queues := (queues s)(job_type job := put provingJobComparator job (queues s (job_type job)))\<rparr>"

fun start :: "(V2ProvingJob \<times> V2ProvingJobResult option) list \<Rightarrow> ProvingBroker \<Rightarrow> ProvingBroker" where
  "start [] s = s"
| "start ((item, result) # rest) s =
     (let s1 = s\<lparr>jobsCache := (jobsCache s)(job_id item \<mapsto> item)\<rparr>
      in case result of
           Some r \<Rightarrow> start rest (s1\<lparr>resultsCache := (resultsCache s1)(job_id item \<mapsto> r)\<rparr>)
         | None \<Rightarrow> start rest (enqueueJobInternal item s1))"

definition enqueueProvingJob ::
  "bool \<Rightarrow> V2ProvingJob \<Rightarrow> ProvingBroker \<Rightarrow> (broker_error + unit) \<times> ProvingBroker" where
  "enqueueProvingJob dbOk job s =
     (case jobsCache s (job_id job) of
        Some existing \<Rightarrow>
          (if job = existing then (Inr (), s) else (Inl DuplicateIdConflict, s))
      | None \<Rightarrow>
          (if \<not> dbOk then (Inl StoreUnavailable, s)
           else (Inr (),
                 enqueueJobInternal job
                   (s\<lparr>database := addProvingJob job (database s),
                      jobsCache := (jobsCache s)(job_id job \<mapsto> job)\<rparr>))))"

definition removeAndCancelProvingJob ::
  "bool \<Rightarrow> V2ProvingJobId \<Rightarrow> ProvingBroker \<Rightarrow> (broker_error + unit) \<times> ProvingBroker" where
  "removeAndCancelProvingJob dbOk i s =
     (if \<not> dbOk then (Inl StoreUnavailable, s)
      else (Inr (),
            s\<lparr>database := deleteProvingJobAndResult i (database s),
               jobsCache := (jobsCache s)(i := None),
               resultsCache := (resultsCache s)(i := None),
               inProgress := AList.delete i (inProgress s),
               retries := (retries s)(i := None)\<rparr>))"

definition getProvingJobStatus :: "V2ProvingJobId \<Rightarrow> ProvingBroker \<Rightarrow> V2ProvingJobStatus" where
  "getProvingJobStatus i s =
     (case resultsCache s i of
        None \<Rightarrow>
          (case jobsCache s i of
             None \<Rightarrow> NotFound
           | Some item \<Rightarrow> (if map_of (inProgress s) i \<noteq> None then InProgress else InQueue))
      | Some (ResultValue v) \<Rightarrow> Resolved v
      | Some (ResultError e) \<Rightarrow> Rejected e)"

text \<open>The loop of \<open>getProvingJob\<close> over the sorted allowed types.\<close>

fun getFromQueues ::
  "int \<Rightarrow> ProvingRequestType list \<Rightarrow> ProvingBroker \<Rightarrow> V2ProvingJob option \<times> ProvingBroker" where
  "getFromQueues now [] s = (None, s)"
| "getFromQueues now (proofType # rest) s =
     (case getImmediate (queues s proofType) of
        (Some item, queue') \<Rightarrow>
          (Some item,
           s\<lparr>queues := (queues s)(proofType := queue'),
              inProgress :=
                AList.update (job_id item)
                  \<lparr>meta_id = job_id item, startedAt = now, lastUpdatedAt = now\<rparr>
                  (inProgress s)\<rparr>)
      | (None, _) \<Rightarrow> getFromQueues now rest s)"

definition allowedProofs :: "ProvingJobFilter \<Rightarrow> ProvingRequestType list" where
  "allowedProofs filter' =
     array_sort proofTypeComparator
       (case allowList filter' of
          Some l \<Rightarrow> l
        | None \<Rightarrow> ProvingRequestType_values)"

definition getProvingJob ::
  "int \<Rightarrow> ProvingJobFilter \<Rightarrow> ProvingBroker \<Rightarrow> V2ProvingJob option \<times> ProvingBroker" where
  "getProvingJob now filter' s = getFromQueues now (allowedProofs filter') s"

text \<open>
  The lease is dropped before the database is awaited, so a rejected database call leaves
  the state without the lease. The error \<open>err\<close> stands for its rendering \<open>String(err)\<close>.
\<close>

definition dropLease :: "V2ProvingJobId \<Rightarrow> ProvingBroker \<Rightarrow> ProvingBroker" where
  "dropLease i s =
     (case map_of (inProgress s) i of
        None \<Rightarrow> s
      | Some info \<Rightarrow> s\<lparr>inProgress := AList.delete i (inProgress s)\<rparr>)"

definition retriesOf :: "ProvingBroker \<Rightarrow> V2ProvingJobId \<Rightarrow> int" where
  "retriesOf s i = (case retries s i of None \<Rightarrow> 0 | Some n \<Rightarrow> n)"

definition reportProvingJobError ::
  "bool \<Rightarrow> V2ProvingJobId \<Rightarrow> string \<Rightarrow> bool \<Rightarrow> ProvingBroker \<Rightarrow> (broker_error + unit) \<times> ProvingBroker" where
  "reportProvingJobError dbOk i err retry s =
     (case jobsCache s i of
        None \<Rightarrow> (Inr (), s)
      | Some item \<Rightarrow>
          (let s1 = dropLease i s in
           if retry \<and> retriesOf s i + 1 < maxRetries s then
             (Inr (), enqueueJobInternal item (s1\<lparr>retries := (retries s1)(i \<mapsto> retriesOf s i + 1)\<rparr>))
           else if \<not> dbOk then (Inl StoreUnavailable, s1)
           else (Inr (),
                 s1\<lparr>database := setProvingJobError i err (database s1),
                    resultsCache := (resultsCache s1)(i \<mapsto> ResultError err)\<rparr>)))"

definition reportProvingJobProgress ::
  "int \<Rightarrow> V2ProvingJobId \<Rightarrow> ProvingJobFilter option \<Rightarrow> ProvingBroker \<Rightarrow> V2ProvingJob option \<times> ProvingBroker" where
  "reportProvingJobProgress now i filter' s =
     (case map_of (inProgress s) i of
        Some metadata \<Rightarrow>
          (None, s\<lparr>inProgress := AList.update i (metadata\<lparr>lastUpdatedAt := now\<rparr>) (inProgress s)\<rparr>)
      | None \<Rightarrow>
          (case filter' of
             Some f \<Rightarrow> getProvingJob now f s
           | None \<Rightarrow> (None, s)))"

definition reportProvingJobSuccess ::
  "bool \<Rightarrow> V2ProvingJobId \<Rightarrow> V2ProvingResult \<Rightarrow> ProvingBroker \<Rightarrow> (broker_error + unit) \<times> ProvingBroker" where
  "reportProvingJobSuccess dbOk i v s =
     (case jobsCache s i of
        None \<Rightarrow> (Inr (), s)
      | Some item \<Rightarrow>
          (let s1 = dropLease i s in
           if \<not> dbOk then (Inl StoreUnavailable, s1)
           else (Inr (),
                 s1\<lparr>database := setProvingJobResult i v (database s1),
                    resultsCache := (resultsCache s1)(i \<mapsto> ResultValue v)\<rparr>)))"

text \<open>
  One turn of the loop of \<open>timeoutCheck\<close>, for the entry \<open>(i, metadata)\<close>. The loop runs
  over the entries of \<open>inProgress\<close>; a turn deletes at most its own entry, so the entries
  visited are those present when the loop starts, in their order.
\<close>

definition timeoutStep ::
  "int \<Rightarrow> V2ProvingJobId \<times> InProgressMetadata \<Rightarrow> ProvingBroker \<Rightarrow> ProvingBroker" where
  "timeoutStep now entry s =
     (case entry of (i, metadata) \<Rightarrow>
        (case jobsCache s i of
           None \<Rightarrow> s\<lparr>inProgress := AList.delete i (inProgress s)\<rparr>
         | Some item \<Rightarrow>
             (let elapsedSinceLastUpdate = now - lastUpdatedAt metadata in
              if elapsedSinceLastUpdate \<ge> proofRequestTimeoutMs s then
                enqueueJobInternal item (s\<lparr>inProgress := AList.delete i (inProgress s)\<rparr>)
              else s)))"

fun timeoutLoop ::
  "int \<Rightarrow> (V2ProvingJobId \<times> InProgressMetadata) list \<Rightarrow> ProvingBroker \<Rightarrow> ProvingBroker" where
  "timeoutLoop now [] s = s"
| "timeoutLoop now (entry # rest) s = timeoutLoop now rest (timeoutStep now entry s)"

definition timeoutCheck :: "int \<Rightarrow> ProvingBroker \<Rightarrow> ProvingBroker" where
  "timeoutCheck now s = timeoutLoop now (inProgress s) s"

section \<open>Sequences of operations\<close>

text \<open>
  The operations of the broker as data, so that properties of every operation and of
  sequences of operations can be stated. \<open>exec\<close> is the state an operation leaves,
  \<open>returned_job\<close> the job it hands to a worker, if any.
\<close>

datatype broker_op =
    Enqueue bool V2ProvingJob
  | Cancel bool V2ProvingJobId
  | Status V2ProvingJobId
  | Acquire int ProvingJobFilter
  | Heartbeat int V2ProvingJobId "ProvingJobFilter option"
  | ReportSuccess bool V2ProvingJobId V2ProvingResult
  | ReportFailure bool V2ProvingJobId string bool
  | Sweep int

fun exec :: "broker_op \<Rightarrow> ProvingBroker \<Rightarrow> ProvingBroker" where
  "exec (Enqueue dbOk job) s = snd (enqueueProvingJob dbOk job s)"
| "exec (Cancel dbOk i) s = snd (removeAndCancelProvingJob dbOk i s)"
| "exec (Status i) s = s"
| "exec (Acquire now f) s = snd (getProvingJob now f s)"
| "exec (Heartbeat now i f) s = snd (reportProvingJobProgress now i f s)"
| "exec (ReportSuccess dbOk i v) s = snd (reportProvingJobSuccess dbOk i v s)"
| "exec (ReportFailure dbOk i err retry) s = snd (reportProvingJobError dbOk i err retry s)"
| "exec (Sweep now) s = timeoutCheck now s"

fun returned_job :: "broker_op \<Rightarrow> ProvingBroker \<Rightarrow> V2ProvingJob option" where
  "returned_job (Acquire now f) s = fst (getProvingJob now f s)"
| "returned_job (Heartbeat now i f) s = fst (reportProvingJobProgress now i f s)"
| "returned_job _ s = None"

fun run :: "broker_op list \<Rightarrow> ProvingBroker \<Rightarrow> ProvingBroker" where
  "run [] s = s"
| "run (op # ops) s = run ops (exec op s)"

section \<open>Properties of a broker state\<close>

text \<open>All queued jobs, and the ids that hold a lease.\<close>

definition queued :: "ProvingBroker \<Rightarrow> V2ProvingJob list" where
  "queued s = concat (map (queues s) ProvingRequestType_values)"

definition leased :: "ProvingBroker \<Rightarrow> V2ProvingJobId list" where
  "leased s = map fst (inProgress s)"

text \<open>Invariant 2 of the specification: a leased id is indexed and has no result.\<close>

definition lease_inv :: "ProvingBroker \<Rightarrow> bool" where
  "lease_inv s = (\<forall>i \<in> set (leased s). jobsCache s i \<noteq> None \<and> resultsCache s i = None)"

text \<open>Invariant 3 of the specification: an id is queued at most once over all queues.\<close>

definition queued_once :: "ProvingBroker \<Rightarrow> bool" where
  "queued_once s = distinct (map job_id (queued s))"

text \<open>
  The stronger property that the operations maintain when they are used as
  \<open>admissible\<close> describes: ids are queued once, a leased id is not queued, a job is
  indexed under its own id, and \<open>inProgress\<close> has one entry for a key (as a JavaScript
  \<open>Map\<close> has).
\<close>

definition queue_inv :: "ProvingBroker \<Rightarrow> bool" where
  "queue_inv s =
     (queued_once s \<and>
      (\<forall>i \<in> set (leased s). i \<notin> set (map job_id (queued s))) \<and>
      (\<forall>i j. jobsCache s i = Some j \<longrightarrow> job_id j = i) \<and>
      distinct (leased s))"

text \<open>
  The two uses that put a job on a queue without looking at the queues and the leases.
  An enqueue that indexes a new id (the id is not in \<open>jobsCache\<close> and the store accepts
  the write) is admissible when the id is neither queued nor leased; an id can be queued
  or leased without being indexed only after a cancellation. A failure report that puts
  the job back (a retry is asked for, the id is in \<open>jobsCache\<close> and the budget is not
  used up) is admissible when the id is not queued. Every other operation, every
  cancellation included, is admissible.
\<close>

fun admissible :: "broker_op \<Rightarrow> ProvingBroker \<Rightarrow> bool" where
  "admissible (Enqueue dbOk job) s =
     (dbOk \<and> jobsCache s (job_id job) = None \<longrightarrow>
        job_id job \<notin> set (map job_id (queued s)) \<and> job_id job \<notin> set (leased s))"
| "admissible (ReportFailure dbOk i err retry) s =
     (retry \<and> jobsCache s i \<noteq> None \<and> retriesOf s i + 1 < maxRetries s \<longrightarrow>
        i \<notin> set (map job_id (queued s)))"
| "admissible _ s = True"

fun admissible_run :: "broker_op list \<Rightarrow> ProvingBroker \<Rightarrow> bool" where
  "admissible_run [] s = True"
| "admissible_run (op # ops) s = (admissible op s \<and> admissible_run ops (exec op s))"

text \<open>
  The queues as \<open>put\<close> leaves them: each queue is in non-decreasing order of block number
  and holds jobs of its own type.
\<close>

definition queues_wf :: "ProvingBroker \<Rightarrow> bool" where
  "queues_wf s =
     (\<forall>t \<in> set ProvingRequestType_values.
        sorted (map blockNumber (queues s t)) \<and> (\<forall>j \<in> set (queues s t). job_type j = t))"

text \<open>The classes a filter allows.\<close>

definition allowed :: "ProvingJobFilter \<Rightarrow> ProvingRequestType set" where
  "allowed f = (case allowList f of Some l \<Rightarrow> set l | None \<Rightarrow> set ProvingRequestType_values)"

text \<open>The rank of a class: its position in \<open>PROOF_TYPES_IN_PRIORITY_ORDER\<close>.\<close>

definition rank :: "ProvingRequestType \<Rightarrow> int" where
  "rank t = indexOf PROOF_TYPES_IN_PRIORITY_ORDER t"

text \<open>
  \<open>proofTypeComparator\<close> with the priority list as an argument, to state what the
  comparator does with a class that a list does not rank.
\<close>

definition comparatorOver ::
  "ProvingRequestType list \<Rightarrow> ProvingRequestType \<Rightarrow> ProvingRequestType \<Rightarrow> int" where
  "comparatorOver order a b =
     (let indexOfA = indexOf order a;
          indexOfB = indexOf order b
      in if indexOfA = indexOfB then 0
         else if indexOfA = - 1 then 1
         else if indexOfB = - 1 then - 1
         else if indexOfA < indexOfB then - 1
         else 1)"

text \<open>
  What a pass of \<open>timeoutCheck\<close> at time \<open>now\<close> finds: the leases it keeps, and the jobs
  it pushes back, in the order of the pass.
\<close>

definition stale :: "int \<Rightarrow> ProvingBroker \<Rightarrow> InProgressMetadata \<Rightarrow> bool" where
  "stale now s metadata = (now - lastUpdatedAt metadata \<ge> proofRequestTimeoutMs s)"

definition keptLeases :: "int \<Rightarrow> ProvingBroker \<Rightarrow> (V2ProvingJobId \<times> InProgressMetadata) list" where
  "keptLeases now s =
     filter (\<lambda>(i, metadata). jobsCache s i \<noteq> None \<and> \<not> stale now s metadata) (inProgress s)"

definition reclaimed :: "int \<Rightarrow> ProvingBroker \<Rightarrow> (V2ProvingJobId \<times> InProgressMetadata) list \<Rightarrow> V2ProvingJob list" where
  "reclaimed now s entries =
     List.map_filter (\<lambda>(i, metadata). if stale now s metadata then jobsCache s i else None) entries"

definition putAll :: "V2ProvingJob list \<Rightarrow> V2ProvingJob PriorityMemoryQueue \<Rightarrow> V2ProvingJob PriorityMemoryQueue" where
  "putAll jobs q = foldl (\<lambda>q' job. put provingJobComparator job q') q jobs"

text \<open>The state in which \<open>getProvingJob\<close> leaves the broker when it takes \<open>item\<close> from queue \<open>t\<close>.\<close>

definition dispatchedState ::
  "int \<Rightarrow> ProvingRequestType \<Rightarrow> V2ProvingJob \<Rightarrow> V2ProvingJob list \<Rightarrow> ProvingBroker \<Rightarrow> ProvingBroker" where
  "dispatchedState now t item q s =
     s\<lparr>queues := (queues s)(t := q),
        inProgress :=
          AList.update (job_id item)
            \<lparr>meta_id = job_id item, startedAt = now, lastUpdatedAt = now\<rparr>
            (inProgress s)\<rparr>"

text \<open>The keys that a pass over \<open>entries\<close> deletes from \<open>inProgress\<close>.\<close>

definition dropped :: "int \<Rightarrow> ProvingBroker \<Rightarrow> (V2ProvingJobId \<times> InProgressMetadata) list \<Rightarrow> V2ProvingJobId set" where
  "dropped now s entries =
     set (map fst (filter (\<lambda>(i, metadata). jobsCache s i = None \<or> stale now s metadata) entries))"

text \<open>
  The ids that the store enumerates, the enumerated jobs that have no result, and the
  broker that \<open>start\<close> leaves when it runs on a new broker.
\<close>

definition storedIds :: "(V2ProvingJob \<times> V2ProvingJobResult option) list \<Rightarrow> V2ProvingJobId list" where
  "storedIds pairs = map (\<lambda>(job, result). job_id job) pairs"

definition unsettled :: "(V2ProvingJob \<times> V2ProvingJobResult option) list \<Rightarrow> V2ProvingJob list" where
  "unsettled pairs = map fst (filter (\<lambda>(job, result). result = None) pairs)"

definition recovered ::
  "(V2ProvingJob \<times> V2ProvingJobResult option) list \<Rightarrow> ProvingBrokerDatabase \<Rightarrow> int \<Rightarrow> int \<Rightarrow> ProvingBroker" where
  "recovered pairs db jobTimeoutMs maxRetries' = start pairs (newBroker db jobTimeoutMs maxRetries')"

section \<open>The scenarios of the specification\<close>

definition noFilter :: ProvingJobFilter where
  "noFilter = \<lparr>allowList = None\<rparr>"

definition freshBroker :: ProvingBroker where
  "freshBroker = defaultBroker emptyDatabase"

definition jobA :: V2ProvingJob where
  "jobA = \<lparr>job_id = ''1'', job_type = PUBLIC_VM, blockNumber = 5, inputs = []\<rparr>"

definition jobB :: V2ProvingJob where
  "jobB = \<lparr>job_id = ''2'', job_type = BLOCK_ROOT_ROLLUP, blockNumber = 9, inputs = []\<rparr>"

definition jobM7 :: V2ProvingJob where
  "jobM7 = \<lparr>job_id = ''1'', job_type = MERGE_ROLLUP, blockNumber = 7, inputs = []\<rparr>"

definition jobM3 :: V2ProvingJob where
  "jobM3 = \<lparr>job_id = ''2'', job_type = MERGE_ROLLUP, blockNumber = 3, inputs = []\<rparr>"

definition J1 :: V2ProvingJob where
  "J1 = \<lparr>job_id = ''J1'', job_type = PUBLIC_VM, blockNumber = 1, inputs = []\<rparr>"

definition J2 :: V2ProvingJob where
  "J2 = \<lparr>job_id = ''J2'', job_type = TUBE_PROOF, blockNumber = 1, inputs = []\<rparr>"

definition J3 :: V2ProvingJob where
  "J3 = \<lparr>job_id = ''J3'', job_type = BASE_PARITY, blockNumber = 2, inputs = []\<rparr>"

definition seededStore :: "(V2ProvingJob \<times> V2ProvingJobResult option) list" where
  "seededStore = [(J1, Some (ResultValue ''proof'')), (J2, None), (J3, Some (ResultError ''boom''))]"

definition queuedA :: ProvingBroker where
  "queuedA = snd (enqueueProvingJob True jobA freshBroker)"

definition settledA :: ProvingBroker where
  "settledA = snd (reportProvingJobSuccess True ''1'' ''v1'' queuedA)"

text \<open>Two jobs, leased at times 0 and 20000.\<close>

definition leasedTwo :: ProvingBroker where
  "leasedTwo = run [Enqueue True jobA, Enqueue True jobB, Acquire 0 noFilter, Acquire 20000 noFilter]
     freshBroker"

text \<open>Scenario S1 before the acquire: \<open>jobA\<close> and \<open>jobB\<close> are queued.\<close>

definition twoQueued :: ProvingBroker where
  "twoQueued = run [Enqueue True jobA, Enqueue True jobB] (newBroker emptyDatabase 30000 3)"

text \<open>
  Two jobs are enqueued. One is cancelled while queued and is still handed out by the
  next acquire; its lease is dropped by the sweep. The other fails twice with a retry,
  each time while leased, and is reclaimed once by the sweep.
\<close>

definition retriedTwice :: "broker_op list" where
  "retriedTwice =
     [Enqueue True jobA, Enqueue True jobB, Cancel True ''2'', Acquire 0 noFilter,
      Acquire 1 noFilter, ReportFailure True ''1'' ''boom'' True, Acquire 2 noFilter,
      Sweep 40000, Acquire 40001 noFilter, ReportFailure True ''1'' ''boom'' True]"

text \<open>
  A broker with a budget of three in which \<open>job\<close> is the only queued job, holds no
  lease, has no result and has failed \<open>n\<close> times.
\<close>

definition idle :: "V2ProvingJob \<Rightarrow> int \<Rightarrow> ProvingBroker \<Rightarrow> bool" where
  "idle job n s =
     (queues s = (\<lambda>_. [])(job_type job := [job]) \<and> jobsCache s (job_id job) = Some job \<and>
      retriesOf s (job_id job) = n \<and> maxRetries s = 3 \<and> inProgress s = [] \<and>
      resultsCache s (job_id job) = None)"

section \<open>Basic facts\<close>

lemmas scenario_defs =
  freshBroker_def defaultBroker_def newBroker_def emptyDatabase_def noFilter_def
  jobA_def jobB_def jobM7_def jobM3_def J1_def J2_def J3_def seededStore_def

lemmas op_defs =
  enqueueProvingJob_def enqueueJobInternal_def removeAndCancelProvingJob_def
  getProvingJobStatus_def getProvingJob_def reportProvingJobError_def
  reportProvingJobProgress_def reportProvingJobSuccess_def timeoutCheck_def timeoutStep_def
  dropLease_def retriesOf_def addProvingJob_def setProvingJobResult_def
  setProvingJobError_def deleteProvingJobAndResult_def provingJobComparator_def

lemma set_insert_sorted: "set (insert_sorted cmp x ys) = insert x (set ys)"
  by (induction ys) auto

lemma set_array_sort: "set (array_sort cmp xs) = set xs"
  by (induction xs) (simp_all add: array_sort_def set_insert_sorted)

lemma set_ProvingRequestType_values: "set ProvingRequestType_values = UNIV"
proof -
  have "t \<in> set ProvingRequestType_values" for t
    by (cases t) (simp_all add: ProvingRequestType_values_def)
  then show ?thesis by blast
qed

lemma distinct_ProvingRequestType_values: "distinct ProvingRequestType_values"
  by (simp add: ProvingRequestType_values_def)

lemma allowedProofs_noFilter:
  "allowedProofs \<lparr>allowList = None\<rparr> = PROOF_TYPES_IN_PRIORITY_ORDER"
  by (simp add: allowedProofs_def array_sort_def ProvingRequestType_values_def
      proofTypeComparator_def PROOF_TYPES_IN_PRIORITY_ORDER_def)

lemma getFromQueues_None:
  "(fst (getFromQueues now ts s) = None) = (\<forall>t \<in> set ts. queues s t = [])"
proof (induction ts)
  case Nil
  show ?case by simp
next
  case (Cons t ts)
  then show ?case by (cases "queues s t") simp_all
qed

section \<open>Admission\<close>

text \<open>
  Claim C8. A second \<open>enqueueProvingJob\<close> of the same job, after a first one whose store
  write went through, returns what the first call returned and leaves the state of the
  first call, the store included, whether or not the store would accept a write (it is
  not asked). An enqueue of a job whose id is indexed with a different record fails with
  \<open>DuplicateIdConflict\<close> and leaves the state as it was.
\<close>

theorem C8_enqueue_idempotent:
  "enqueueProvingJob ok2 job (snd (enqueueProvingJob True job s)) = enqueueProvingJob True job s \<and>
   (jobsCache s (job_id job) = Some existing \<and> existing \<noteq> job \<longrightarrow>
      enqueueProvingJob ok job s = (Inl DuplicateIdConflict, s))"
  by (auto simp: enqueueProvingJob_def enqueueJobInternal_def split: option.splits)

theorem C8_witness:
  "jobsCache (snd (enqueueProvingJob True jobA freshBroker)) (job_id jobM7) = Some jobA \<and>
   jobA \<noteq> jobM7 \<and>
   enqueueProvingJob True jobM7 (snd (enqueueProvingJob True jobA freshBroker)) =
     (Inl DuplicateIdConflict, snd (enqueueProvingJob True jobA freshBroker)) \<and>
   enqueueProvingJob False jobA (snd (enqueueProvingJob True jobA freshBroker)) =
     enqueueProvingJob True jobA freshBroker"
  using C8_enqueue_idempotent [of False jobA freshBroker]
    C8_enqueue_idempotent [of _ jobM7 "snd (enqueueProvingJob True jobA freshBroker)" jobA True]
  by (simp add: scenario_defs op_defs)

section \<open>Dispatch\<close>

text \<open>
  Claim C10. \<open>getProvingJob\<close> with an allow list that is present and empty returns no job
  and leaves the whole state as it was, whatever is queued. With no allow list every class
  is considered: then no job is returned only when every queue is empty.
\<close>

theorem C10_empty_allow_list:
  "getProvingJob now \<lparr>allowList = Some []\<rparr> s = (None, s) \<and>
   ((fst (getProvingJob now \<lparr>allowList = None\<rparr> s) = None) = (\<forall>t. queues s t = []))"
proof
  show "getProvingJob now \<lparr>allowList = Some []\<rparr> s = (None, s)"
    by (simp add: getProvingJob_def allowedProofs_def array_sort_def)
  show "(fst (getProvingJob now \<lparr>allowList = None\<rparr> s) = None) = (\<forall>t. queues s t = [])"
    by (simp add: getProvingJob_def allowedProofs_def getFromQueues_None set_array_sort
        set_ProvingRequestType_values)
qed

theorem C10_witness:
  "queues (snd (enqueueProvingJob True jobA freshBroker)) PUBLIC_VM = [jobA] \<and>
   getProvingJob 0 \<lparr>allowList = Some []\<rparr> (snd (enqueueProvingJob True jobA freshBroker)) =
     (None, snd (enqueueProvingJob True jobA freshBroker)) \<and>
   fst (getProvingJob 0 \<lparr>allowList = None\<rparr> (snd (enqueueProvingJob True jobA freshBroker))) = Some jobA"
  using C10_empty_allow_list [of 0 "snd (enqueueProvingJob True jobA freshBroker)"]
  by (simp add: scenario_defs op_defs allowedProofs_noFilter PROOF_TYPES_IN_PRIORITY_ORDER_def)

section \<open>Reports\<close>

text \<open>
  Claim C1, counterexample. Job \<open>''1''\<close> is enqueued and settled with the value
  \<open>''v1''\<close>. A second \<open>reportProvingJobSuccess\<close> with \<open>''v2''\<close> is not dropped: the result
  index and the store then hold \<open>''v2''\<close>. A \<open>reportProvingJobError\<close> without retry
  replaces the recorded success by a failure in the same way.
\<close>

theorem C1_counterexample:
  "resultsCache settledA ''1'' = Some (ResultValue ''v1'') \<and>
   dbResults (database settledA) ''1'' = Some (ResultValue ''v1'') \<and>
   resultsCache (snd (reportProvingJobSuccess True ''1'' ''v2'' settledA)) ''1'' = Some (ResultValue ''v2'') \<and>
   dbResults (database (snd (reportProvingJobSuccess True ''1'' ''v2'' settledA))) ''1'' = Some (ResultValue ''v2'') \<and>
   resultsCache (snd (reportProvingJobError True ''1'' ''boom'' False settledA)) ''1'' = Some (ResultError ''boom'') \<and>
   dbResults (database (snd (reportProvingJobError True ''1'' ''boom'' False settledA))) ''1'' = Some (ResultError ''boom'')"
  by (simp add: settledA_def queuedA_def scenario_defs op_defs)

text \<open>
  Claim C1, as amended. A report for an id that is not in \<open>jobsCache\<close> is dropped and
  leaves the state as it was. A report for an id in \<open>jobsCache\<close> is honoured whether or
  not a result is recorded for it: when the store write goes through,
  \<open>reportProvingJobSuccess\<close>, and \<open>reportProvingJobError\<close> when no retry is asked for or
  the budget is used up, write their outcome for the id to the store and to
  \<open>resultsCache\<close>, in place of a recorded one, and change no other id's outcome; a
  failure report that is retried leaves \<open>resultsCache\<close> and the store as they were.
\<close>

theorem C1_reports_overwrite:
  "(jobsCache s i = None \<longrightarrow>
      reportProvingJobSuccess ok i v s = (Inr (), s) \<and>
      reportProvingJobError ok i e r s = (Inr (), s)) \<and>
   (jobsCache s i \<noteq> None \<longrightarrow>
      fst (reportProvingJobSuccess True i v s) = Inr () \<and>
      resultsCache (snd (reportProvingJobSuccess True i v s)) = (resultsCache s)(i \<mapsto> ResultValue v) \<and>
      dbResults (database (snd (reportProvingJobSuccess True i v s))) =
        (dbResults (database s))(i \<mapsto> ResultValue v) \<and>
      (\<not> (r \<and> retriesOf s i + 1 < maxRetries s) \<longrightarrow>
         fst (reportProvingJobError True i e r s) = Inr () \<and>
         resultsCache (snd (reportProvingJobError True i e r s)) = (resultsCache s)(i \<mapsto> ResultError e) \<and>
         dbResults (database (snd (reportProvingJobError True i e r s))) =
           (dbResults (database s))(i \<mapsto> ResultError e)) \<and>
      (r \<and> retriesOf s i + 1 < maxRetries s \<longrightarrow>
         resultsCache (snd (reportProvingJobError ok i e r s)) = resultsCache s \<and>
         database (snd (reportProvingJobError ok i e r s)) = database s))"
  by (auto simp: reportProvingJobSuccess_def reportProvingJobError_def dropLease_def
      enqueueJobInternal_def setProvingJobResult_def setProvingJobError_def Let_def
      split: option.splits)

theorem C1_witness:
  "jobsCache settledA ''1'' \<noteq> None \<and> jobsCache settledA ''7'' = None \<and>
   \<not> (False \<and> retriesOf settledA ''1'' + 1 < maxRetries settledA) \<and>
   (True \<and> retriesOf settledA ''1'' + 1 < maxRetries settledA) \<and>
   reportProvingJobSuccess True ''7'' ''v2'' settledA = (Inr (), settledA) \<and>
   resultsCache (snd (reportProvingJobSuccess True ''1'' ''v2'' settledA)) =
     (resultsCache settledA)(''1'' \<mapsto> ResultValue ''v2'') \<and>
   resultsCache (snd (reportProvingJobError True ''1'' ''boom'' False settledA)) =
     (resultsCache settledA)(''1'' \<mapsto> ResultError ''boom'') \<and>
   resultsCache (snd (reportProvingJobError True ''1'' ''boom'' True settledA)) = resultsCache settledA"
proof -
  have a: "jobsCache settledA ''1'' \<noteq> None" "jobsCache settledA ''7'' = None"
    "retriesOf settledA ''1'' + 1 < maxRetries settledA"
    by (simp_all add: settledA_def queuedA_def scenario_defs op_defs)
  show ?thesis
    using a C1_reports_overwrite [of settledA "''7''" True "''v2''" "''boom''" True]
      C1_reports_overwrite [of settledA "''1''" True "''v2''" "''boom''" False]
      C1_reports_overwrite [of settledA "''1''" True "''v2''" "''boom''" True]
    by simp
qed

section \<open>Cancellation\<close>

text \<open>
  Claim C2, counterexample. Job \<open>''1''\<close> is enqueued. When the store rejects the delete,
  \<open>removeAndCancelProvingJob\<close> surfaces the error and the job is still in \<open>jobsCache\<close>;
  when the store accepts it, the job is still in the queue of its class.
\<close>

theorem C2_counterexample:
  "removeAndCancelProvingJob False ''1'' queuedA = (Inl StoreUnavailable, queuedA) \<and>
   jobsCache queuedA ''1'' = Some jobA \<and>
   fst (removeAndCancelProvingJob True ''1'' queuedA) = Inr () \<and>
   queues (snd (removeAndCancelProvingJob True ''1'' queuedA)) PUBLIC_VM = [jobA]"
  by (simp add: queuedA_def scenario_defs op_defs)

text \<open>
  Claim C2, as amended. \<open>removeAndCancelProvingJob\<close> deletes from the store first. When
  the store rejects the delete the error is surfaced and no in-memory structure changes.
  When the store accepts it, the id is removed from the store's jobs and results and from
  \<open>jobsCache\<close>, \<open>resultsCache\<close>, \<open>inProgress\<close> and \<open>retries\<close>, every other id keeping
  its entries; the queues are left as they were.
\<close>

theorem C2_cancel:
  "removeAndCancelProvingJob False i s = (Inl StoreUnavailable, s) \<and>
   fst (removeAndCancelProvingJob True i s) = Inr () \<and>
   jobsCache (snd (removeAndCancelProvingJob True i s)) = (jobsCache s)(i := None) \<and>
   resultsCache (snd (removeAndCancelProvingJob True i s)) = (resultsCache s)(i := None) \<and>
   inProgress (snd (removeAndCancelProvingJob True i s)) = filter (\<lambda>(k, m). i \<noteq> k) (inProgress s) \<and>
   retries (snd (removeAndCancelProvingJob True i s)) = (retries s)(i := None) \<and>
   dbJobs (database (snd (removeAndCancelProvingJob True i s))) = (dbJobs (database s))(i := None) \<and>
   dbResults (database (snd (removeAndCancelProvingJob True i s))) = (dbResults (database s))(i := None) \<and>
   queues (snd (removeAndCancelProvingJob True i s)) = queues s"
  by (simp add: removeAndCancelProvingJob_def deleteProvingJobAndResult_def AList.delete_eq
      split_def)

theorem C2_witness:
  "jobsCache (snd (removeAndCancelProvingJob True ''1'' queuedA)) ''1'' = None \<and>
   dbJobs (database (snd (removeAndCancelProvingJob True ''1'' queuedA))) ''1'' = None \<and>
   queues (snd (removeAndCancelProvingJob True ''1'' queuedA)) = queues queuedA"
  using C2_cancel [of "''1''" queuedA] by simp

section \<open>Facts about the queues\<close>

subsection \<open>The queue\<close>

lemma set_put: "set (put cmp x q) = insert x (set q)"
  by (induction q) auto

lemma mset_put: "mset (put cmp x q) = add_mset x (mset q)"
  by (induction q) auto

lemma put_by_blockNumber:
  "sorted (map blockNumber q) \<Longrightarrow>
   put provingJobComparator x q =
     filter (\<lambda>y. blockNumber y \<le> blockNumber x) q @ x # filter (\<lambda>y. blockNumber x < blockNumber y) q"
proof (induction q)
  case Nil
  show ?case by simp
next
  case (Cons y q)
  show ?case
  proof (cases "blockNumber x < blockNumber y")
    case True
    with Cons.prems have "\<forall>z \<in> set q. blockNumber x < blockNumber z"
      by auto
    then have "filter (\<lambda>z. blockNumber z \<le> blockNumber x) q = []"
      "filter (\<lambda>z. blockNumber x < blockNumber z) q = q"
      by (auto simp: filter_empty_conv intro: filter_True)
    with True show ?thesis by (simp add: provingJobComparator_def)
  next
    case False
    with Cons show ?thesis by (simp add: provingJobComparator_def)
  qed
qed

lemma sorted_put:
  "sorted (map blockNumber q) \<Longrightarrow> sorted (map blockNumber (put provingJobComparator x q))"
  by (induction q) (auto simp: provingJobComparator_def set_put)

lemma putAll_snoc: "putAll (jobs @ [j]) q = put provingJobComparator j (putAll jobs q)"
  by (simp add: putAll_def)

lemma mset_putAll: "mset (putAll jobs q) = mset jobs + mset q"
  by (induction jobs arbitrary: q) (simp_all add: putAll_def mset_put)

subsection \<open>All queued jobs\<close>

lemma concat_map_upd_other:
  "t \<notin> set xs \<Longrightarrow> concat (map (f(t := q)) xs) = concat (map f xs)"
  by (induction xs) auto

lemma mset_concat_map_upd:
  "distinct xs \<Longrightarrow> t \<in> set xs \<Longrightarrow>
   mset (concat (map (f(t := q)) xs)) + mset (f t) = mset (concat (map f xs)) + mset q"
  by (induction xs) (auto simp: concat_map_upd_other)

lemma mset_queued_upd:
  "mset (queued (s\<lparr>queues := (queues s)(t := q)\<rparr>)) + mset (queues s t) = mset (queued s) + mset q"
  by (simp add: queued_def mset_concat_map_upd distinct_ProvingRequestType_values
      set_ProvingRequestType_values)

lemma set_queued: "set (queued s) = (\<Union>t. set (queues s t))"
  by (simp add: queued_def set_ProvingRequestType_values)

lemma mset_queued_enqueueJobInternal:
  "mset (queued (enqueueJobInternal j s)) = add_mset j (mset (queued s))"
  using mset_queued_upd [of s "job_type j" "put provingJobComparator j (queues s (job_type j))"]
  by (simp add: enqueueJobInternal_def mset_put)

subsection \<open>Dispatch\<close>

lemma getFromQueues_cases:
  "getFromQueues now ts s = (None, s) \<and> (\<forall>t \<in> set ts. queues s t = []) \<or>
   (\<exists>pre t post item q. ts = pre @ t # post \<and> (\<forall>u \<in> set pre. queues s u = []) \<and>
      queues s t = item # q \<and>
      getFromQueues now ts s = (Some item, dispatchedState now t item q s))"
proof (induction ts)
  case Nil
  show ?case by simp
next
  case (Cons t ts)
  show ?case
  proof (cases "queues s t")
    case Nil
    from Cons show ?thesis
    proof
      assume "getFromQueues now ts s = (None, s) \<and> (\<forall>t \<in> set ts. queues s t = [])"
      with Nil show ?thesis by simp
    next
      assume "\<exists>pre u post item q. ts = pre @ u # post \<and> (\<forall>u \<in> set pre. queues s u = []) \<and>
        queues s u = item # q \<and> getFromQueues now ts s = (Some item, dispatchedState now u item q s)"
      then obtain pre u post item q where h: "ts = pre @ u # post" "\<forall>u \<in> set pre. queues s u = []"
        "queues s u = item # q" "getFromQueues now ts s = (Some item, dispatchedState now u item q s)"
        by blast
      have "t # ts = (t # pre) @ u # post" using h(1) by simp
      moreover have "\<forall>v \<in> set (t # pre). queues s v = []" using h(2) Nil by simp
      moreover have "getFromQueues now (t # ts) s = (Some item, dispatchedState now u item q s)"
        using h(4) Nil by simp
      ultimately show ?thesis using h(3) by blast
    qed
  next
    case (Cons item q)
    have "t # ts = [] @ t # ts" by simp
    moreover have "getFromQueues now (t # ts) s = (Some item, dispatchedState now t item q s)"
      using Cons by (simp add: dispatchedState_def)
    ultimately show ?thesis using Cons by (metis empty_iff empty_set)
  qed
qed

lemma mset_queued_dispatchedState:
  "queues s t = item # q \<Longrightarrow> mset (queued s) = add_mset item (mset (queued (dispatchedState now t item q s)))"
proof -
  assume a: "queues s t = item # q"
  have "queued (dispatchedState now t item q s) = queued (s\<lparr>queues := (queues s)(t := q)\<rparr>)"
    by (simp add: dispatchedState_def queued_def)
  with mset_queued_upd [of s t q] a show ?thesis by simp
qed

section \<open>Retries\<close>

text \<open>
  A job alone in the queues is taken by a worker and reported failed with a retry: below
  the budget it is alone in the queues again, at the budget it is rejected.
\<close>

lemma getFromQueues_only:
  "t \<in> set ts \<Longrightarrow> \<forall>u. u \<noteq> t \<longrightarrow> queues s u = [] \<Longrightarrow> queues s t = item # q \<Longrightarrow>
   getFromQueues now ts s = (Some item, dispatchedState now t item q s)"
proof (induction ts)
  case Nil
  then show ?case by simp
next
  case (Cons u ts)
  show ?case
  proof (cases "u = t")
    case True
    with Cons.prems show ?thesis by (simp add: dispatchedState_def)
  next
    case False
    with Cons show ?thesis by simp
  qed
qed

lemma getProvingJob_only:
  assumes "\<forall>u. u \<noteq> t \<longrightarrow> queues s u = []" and "queues s t = item # q"
  shows "getProvingJob now \<lparr>allowList = None\<rparr> s = (Some item, dispatchedState now t item q s)"
proof -
  have "t \<in> set (allowedProofs \<lparr>allowList = None\<rparr>)"
    by (simp add: allowedProofs_def set_array_sort set_ProvingRequestType_values)
  from getFromQueues_only [OF this assms] show ?thesis
    by (simp add: getProvingJob_def)
qed

lemma round_retry:
  assumes "idle job n s" and "n + 1 < 3"
  shows "idle job (n + 1) (run [Acquire now noFilter, ReportFailure ok (job_id job) e True] s)"
proof -
  from assms(1) have q: "\<forall>u. u \<noteq> job_type job \<longrightarrow> queues s u = []" "queues s (job_type job) = job # []"
    by (simp_all add: idle_def)
  have g: "getProvingJob now \<lparr>allowList = None\<rparr> s = (Some job, dispatchedState now (job_type job) job [] s)"
    using q by (rule getProvingJob_only)
  show ?thesis
    using assms g
    by (auto simp add: idle_def noFilter_def dispatchedState_def reportProvingJobError_def dropLease_def
        retriesOf_def enqueueJobInternal_def fun_eq_iff)
qed

lemma round_final:
  assumes "idle job 2 s"
  shows "getProvingJobStatus (job_id job) (run [Acquire now noFilter, ReportFailure True (job_id job) e True] s) = Rejected e \<and>
    (\<forall>t. queues (run [Acquire now noFilter, ReportFailure True (job_id job) e True] s) t = [])"
proof -
  from assms(1) have q: "\<forall>u. u \<noteq> job_type job \<longrightarrow> queues s u = []" "queues s (job_type job) = job # []"
    by (simp_all add: idle_def)
  have g: "getProvingJob now \<lparr>allowList = None\<rparr> s = (Some job, dispatchedState now (job_type job) job [] s)"
    using q by (rule getProvingJob_only)
  show ?thesis
    using assms g
    by (auto simp add: idle_def noFilter_def dispatchedState_def reportProvingJobError_def dropLease_def
        retriesOf_def enqueueJobInternal_def fun_eq_iff getProvingJobStatus_def)
qed

lemma idle_enqueue: "idle job 0 (exec (Enqueue True job) (newBroker db tmo 3))"
  by (simp add: idle_def newBroker_def enqueueProvingJob_def enqueueJobInternal_def retriesOf_def)

lemma run_append: "run (xs @ ys) s = run ys (run xs s)"
  by (induction xs arbitrary: s) simp_all

lemma bounded_retries:
  "getProvingJobStatus (job_id job)
     (run [Enqueue True job,
           Acquire t1 noFilter, ReportFailure ok1 (job_id job) e True,
           Acquire t2 noFilter, ReportFailure ok2 (job_id job) e True,
           Acquire t3 noFilter, ReportFailure True (job_id job) e True] (newBroker db tmo 3)) = Rejected e \<and>
   (\<forall>t. queues
     (run [Enqueue True job,
           Acquire t1 noFilter, ReportFailure ok1 (job_id job) e True,
           Acquire t2 noFilter, ReportFailure ok2 (job_id job) e True,
           Acquire t3 noFilter, ReportFailure True (job_id job) e True] (newBroker db tmo 3)) t = [])"
proof -
  let ?s0 = "exec (Enqueue True job) (newBroker db tmo 3)"
  let ?s1 = "run [Acquire t1 noFilter, ReportFailure ok1 (job_id job) e True] ?s0"
  let ?s2 = "run [Acquire t2 noFilter, ReportFailure ok2 (job_id job) e True] ?s1"
  have "idle job 0 ?s0" by (rule idle_enqueue)
  then have "idle job (0 + 1) ?s1" by (rule round_retry) simp
  then have "idle job (1 + 1) ?s2" using round_retry [of job 1 ?s1 t2 ok2 e] by simp
  then have "idle job 2 ?s2" by simp
  from round_final [OF this, of t3 e] show ?thesis by simp
qed

text \<open>
  Claim C5, counterexample. With a budget of three, job \<open>''1''\<close> is enqueued, taken
  once and reported failed three times with a retry: the status is \<open>Rejected\<close>, and
  the job is in the queue of its class, twice.
\<close>

theorem C5_counterexample:
  "getProvingJobStatus ''1''
     (run [Enqueue True jobA, Acquire 0 noFilter,
           ReportFailure True ''1'' ''boom'' True,
           ReportFailure True ''1'' ''boom'' True,
           ReportFailure True ''1'' ''boom'' True] freshBroker) = Rejected ''boom'' \<and>
   queues
     (run [Enqueue True jobA, Acquire 0 noFilter,
           ReportFailure True ''1'' ''boom'' True,
           ReportFailure True ''1'' ''boom'' True,
           ReportFailure True ''1'' ''boom'' True] freshBroker) PUBLIC_VM = [jobA, jobA]"
  by (simp add: scenario_defs op_defs allowedProofs_noFilter PROOF_TYPES_IN_PRIORITY_ORDER_def)

text \<open>
  Claim C5, as amended. For a job in \<open>jobsCache\<close>, \<open>reportProvingJobError\<close> with a
  retry: when \<open>retries + 1 < maxRetries\<close> the job is put on the queue of its class, the
  counter becomes \<open>retries + 1\<close>, and the store is not written (the call succeeds
  whether or not the store is available); otherwise, the store write going through, the
  failure is written to the store and to \<open>resultsCache\<close>, and the queues and the
  counter are as before. With a budget of three, after an enqueue and three rounds, each
  an acquire followed by a failure report with a retry, the status of the job is
  \<open>Rejected\<close> with the reason of the report and every queue is empty.
\<close>

theorem C5_retry_budget:
  "(jobsCache s i = Some item \<and> retriesOf s i + 1 < maxRetries s \<longrightarrow>
      fst (reportProvingJobError ok i e True s) = Inr () \<and>
      retries (snd (reportProvingJobError ok i e True s)) = (retries s)(i \<mapsto> retriesOf s i + 1) \<and>
      queues (snd (reportProvingJobError ok i e True s)) =
        (queues s)(job_type item := put provingJobComparator item (queues s (job_type item))) \<and>
      resultsCache (snd (reportProvingJobError ok i e True s)) = resultsCache s \<and>
      database (snd (reportProvingJobError ok i e True s)) = database s) \<and>
   (jobsCache s i = Some item \<and> \<not> retriesOf s i + 1 < maxRetries s \<longrightarrow>
      fst (reportProvingJobError True i e True s) = Inr () \<and>
      resultsCache (snd (reportProvingJobError True i e True s)) = (resultsCache s)(i \<mapsto> ResultError e) \<and>
      dbResults (database (snd (reportProvingJobError True i e True s))) =
        (dbResults (database s))(i \<mapsto> ResultError e) \<and>
      queues (snd (reportProvingJobError True i e True s)) = queues s \<and>
      retries (snd (reportProvingJobError True i e True s)) = retries s) \<and>
   getProvingJobStatus (job_id job)
     (run [Enqueue True job,
           Acquire t1 noFilter, ReportFailure ok1 (job_id job) e True,
           Acquire t2 noFilter, ReportFailure ok2 (job_id job) e True,
           Acquire t3 noFilter, ReportFailure True (job_id job) e True] (newBroker db tmo 3)) = Rejected e \<and>
   (\<forall>t. queues
     (run [Enqueue True job,
           Acquire t1 noFilter, ReportFailure ok1 (job_id job) e True,
           Acquire t2 noFilter, ReportFailure ok2 (job_id job) e True,
           Acquire t3 noFilter, ReportFailure True (job_id job) e True] (newBroker db tmo 3)) t = [])"
proof -
  have a: "jobsCache s i = Some item \<and> retriesOf s i + 1 < maxRetries s \<longrightarrow>
      fst (reportProvingJobError ok i e True s) = Inr () \<and>
      retries (snd (reportProvingJobError ok i e True s)) = (retries s)(i \<mapsto> retriesOf s i + 1) \<and>
      queues (snd (reportProvingJobError ok i e True s)) =
        (queues s)(job_type item := put provingJobComparator item (queues s (job_type item))) \<and>
      resultsCache (snd (reportProvingJobError ok i e True s)) = resultsCache s \<and>
      database (snd (reportProvingJobError ok i e True s)) = database s"
    by (simp add: reportProvingJobError_def dropLease_def enqueueJobInternal_def
        split: option.splits)
  have b: "jobsCache s i = Some item \<and> \<not> retriesOf s i + 1 < maxRetries s \<longrightarrow>
      fst (reportProvingJobError True i e True s) = Inr () \<and>
      resultsCache (snd (reportProvingJobError True i e True s)) = (resultsCache s)(i \<mapsto> ResultError e) \<and>
      dbResults (database (snd (reportProvingJobError True i e True s))) =
        (dbResults (database s))(i \<mapsto> ResultError e) \<and>
      queues (snd (reportProvingJobError True i e True s)) = queues s \<and>
      retries (snd (reportProvingJobError True i e True s)) = retries s"
    by (simp add: reportProvingJobError_def dropLease_def setProvingJobError_def
        split: option.splits)
  from a b bounded_retries [of job t1 ok1 e t2 ok2 t3 db tmo] show ?thesis by blast
qed

theorem C5_witness:
  "jobsCache queuedA ''1'' = Some jobA \<and> retriesOf queuedA ''1'' + 1 < maxRetries queuedA \<and>
   retries (snd (reportProvingJobError False ''1'' ''boom'' True queuedA)) ''1'' = Some 1 \<and>
   queues (snd (reportProvingJobError False ''1'' ''boom'' True queuedA)) PUBLIC_VM = [jobA, jobA] \<and>
   jobsCache (queuedA\<lparr>maxRetries := 1\<rparr>) ''1'' = Some jobA \<and>
   \<not> retriesOf (queuedA\<lparr>maxRetries := 1\<rparr>) ''1'' + 1 < maxRetries (queuedA\<lparr>maxRetries := 1\<rparr>) \<and>
   resultsCache (snd (reportProvingJobError True ''1'' ''boom'' True (queuedA\<lparr>maxRetries := 1\<rparr>))) ''1'' =
     Some (ResultError ''boom'') \<and>
   queues (snd (reportProvingJobError True ''1'' ''boom'' True (queuedA\<lparr>maxRetries := 1\<rparr>))) PUBLIC_VM = [jobA]"
proof -
  have a: "jobsCache queuedA ''1'' = Some jobA" "retriesOf queuedA ''1'' = 0" "maxRetries queuedA = 3"
    "queues queuedA PUBLIC_VM = [jobA]" "retries queuedA ''1'' = None" "job_type jobA = PUBLIC_VM"
    by (simp_all add: queuedA_def scenario_defs op_defs)
  show ?thesis
    using a C5_retry_budget [of queuedA "''1''" jobA False "''boom''"]
      C5_retry_budget [of "queuedA\<lparr>maxRetries := 1\<rparr>" "''1''" jobA False "''boom''"]
    by (simp add: retriesOf_def provingJobComparator_def)
qed

section \<open>The timeout sweep\<close>

lemma timeoutStep_frame:
  "jobsCache (timeoutStep now entry s) = jobsCache s"
  "resultsCache (timeoutStep now entry s) = resultsCache s"
  "retries (timeoutStep now entry s) = retries s"
  "database (timeoutStep now entry s) = database s"
  "proofRequestTimeoutMs (timeoutStep now entry s) = proofRequestTimeoutMs s"
  "maxRetries (timeoutStep now entry s) = maxRetries s"
  by (simp_all add: timeoutStep_def enqueueJobInternal_def split: prod.splits option.splits)

lemma timeoutLoop_frame:
  "jobsCache (timeoutLoop now entries s) = jobsCache s"
  "resultsCache (timeoutLoop now entries s) = resultsCache s"
  "retries (timeoutLoop now entries s) = retries s"
  "database (timeoutLoop now entries s) = database s"
  "proofRequestTimeoutMs (timeoutLoop now entries s) = proofRequestTimeoutMs s"
  "maxRetries (timeoutLoop now entries s) = maxRetries s"
  by (induction entries arbitrary: s; simp add: timeoutStep_frame)+

lemma stale_timeoutStep: "stale now (timeoutStep now entry s) = stale now s"
  by (simp add: stale_def fun_eq_iff timeoutStep_frame)

lemma reclaimed_timeoutStep: "reclaimed now (timeoutStep now entry s) entries = reclaimed now s entries"
  by (simp add: reclaimed_def stale_timeoutStep timeoutStep_frame cong: if_cong)

lemma reclaimed_Cons:
  "reclaimed now s ((i, m) # entries) =
     (case (if stale now s m then jobsCache s i else None) of
        None \<Rightarrow> reclaimed now s entries
      | Some item \<Rightarrow> item # reclaimed now s entries)"
  by (simp add: reclaimed_def split: option.splits)

lemma queues_timeoutStep:
  "queues (timeoutStep now (i, m) s) t =
     putAll (filter (\<lambda>j. job_type j = t) (reclaimed now s [(i, m)])) (queues s t)"
  by (simp add: timeoutStep_def enqueueJobInternal_def reclaimed_def
      putAll_def stale_def split: option.splits)

lemma putAll_append: "putAll (xs @ ys) q = putAll ys (putAll xs q)"
  by (simp add: putAll_def)

lemma reclaimed_append:
  "reclaimed now s (xs @ ys) = reclaimed now s xs @ reclaimed now s ys"
  by (simp add: reclaimed_def List.map_filter_def)

lemma queues_timeoutLoop:
  "queues (timeoutLoop now entries s) t =
     putAll (filter (\<lambda>j. job_type j = t) (reclaimed now s entries)) (queues s t)"
proof (induction entries arbitrary: s)
  case Nil
  show ?case by (simp add: reclaimed_def putAll_def)
next
  case (Cons entry entries)
  obtain i m where e: "entry = (i, m)" by (cases entry)
  have "reclaimed now s (entry # entries) = reclaimed now s [(i, m)] @ reclaimed now s entries"
    using reclaimed_append [of now s "[(i, m)]" entries] e by simp
  then show ?case
    using Cons [of "timeoutStep now entry s"] e
    by (simp add: reclaimed_timeoutStep queues_timeoutStep putAll_append)
qed

lemma dropped_iff:
  "(i \<in> dropped now s entries) =
     (\<exists>m. (i, m) \<in> set entries \<and> (jobsCache s i = None \<or> stale now s m))"
  by (force simp: dropped_def)

lemma dropped_timeoutStep: "dropped now (timeoutStep now entry s) entries = dropped now s entries"
  by (simp add: dropped_def stale_timeoutStep timeoutStep_frame)

lemma dropped_single:
  "dropped now s [(i, m)] = (if jobsCache s i = None \<or> stale now s m then {i} else {})"
  by (auto simp: dropped_def)

lemma delete_as_filter: "AList.delete i xs = filter (\<lambda>(k, m'). k \<notin> {i}) xs"
  by (induction xs) auto

lemma inProgress_timeoutStep:
  "inProgress (timeoutStep now (i, m) s) =
     filter (\<lambda>(k, m'). k \<notin> dropped now s [(i, m)]) (inProgress s)"
proof (cases "jobsCache s i")
  case None
  then show ?thesis
    by (simp add: timeoutStep_def dropped_single delete_as_filter)
next
  case (Some item)
  then show ?thesis
    by (simp add: timeoutStep_def dropped_single delete_as_filter enqueueJobInternal_def stale_def)
qed

lemma dropped_Cons: "dropped now s (entry # entries) = dropped now s [entry] \<union> dropped now s entries"
  by (auto simp: dropped_def)

lemma inProgress_timeoutLoop:
  "inProgress (timeoutLoop now entries s) =
     filter (\<lambda>(k, m'). k \<notin> dropped now s entries) (inProgress s)"
proof (induction entries arbitrary: s)
  case Nil
  show ?case by (simp add: dropped_def)
next
  case (Cons entry entries)
  obtain i m where e: "entry = (i, m)" by (cases entry)
  have "inProgress (timeoutLoop now (entry # entries) s) =
      filter (\<lambda>(k, m'). k \<notin> dropped now s entries)
        (filter (\<lambda>(k, m'). k \<notin> dropped now s [entry]) (inProgress s))"
    using Cons [of "timeoutStep now entry s"] e
    by (simp add: dropped_timeoutStep inProgress_timeoutStep)
  also have "\<dots> = filter (\<lambda>(k, m'). k \<notin> dropped now s (entry # entries)) (inProgress s)"
    unfolding dropped_Cons [of now s entry entries] filter_filter
    by (rule filter_cong) auto
  finally show ?case .
qed

lemma inProgress_timeoutCheck:
  assumes "distinct (leased s)"
  shows "inProgress (timeoutCheck now s) = keptLeases now s"
proof -
  have "(k \<notin> dropped now s (inProgress s)) = (jobsCache s k \<noteq> None \<and> \<not> stale now s m)"
    if km: "(k, m) \<in> set (inProgress s)" for k m
  proof -
    have uniq: "m' = m" if "(k, m') \<in> set (inProgress s)" for m'
      using assms that km eq_key_imp_eq_value [of "inProgress s" k m' m]
      by (simp add: leased_def)
    have "(k \<in> dropped now s (inProgress s)) = (jobsCache s k = None \<or> stale now s m)"
    proof
      assume "k \<in> dropped now s (inProgress s)"
      then obtain m' where m': "(k, m') \<in> set (inProgress s)"
        "jobsCache s k = None \<or> stale now s m'"
        unfolding dropped_iff by blast
      from uniq [OF m'(1)] m'(2) show "jobsCache s k = None \<or> stale now s m" by simp
    next
      assume "jobsCache s k = None \<or> stale now s m"
      with km show "k \<in> dropped now s (inProgress s)"
        unfolding dropped_iff by blast
    qed
    then show ?thesis by simp
  qed
  then have "filter (\<lambda>(k, m'). k \<notin> dropped now s (inProgress s)) (inProgress s) =
      filter (\<lambda>(i, metadata). jobsCache s i \<noteq> None \<and> \<not> stale now s metadata) (inProgress s)"
    by (intro filter_cong) auto
  then show ?thesis
    by (simp add: timeoutCheck_def inProgress_timeoutLoop keptLeases_def)
qed

lemma reclaim_after:
  assumes "t0 + 30000 \<le> t1"
  shows "returned_job (Acquire t2 noFilter)
     (run [Enqueue True job, Acquire t0 noFilter, Sweep t1] (defaultBroker db)) = Some job \<and>
   retries (run [Enqueue True job, Acquire t0 noFilter, Sweep t1, Acquire t2 noFilter]
     (defaultBroker db)) (job_id job) = None"
proof -
  let ?s1 = "snd (enqueueProvingJob True job (defaultBroker db))"
  have q1: "queues ?s1 = (\<lambda>_. [])(job_type job := [job])" "jobsCache ?s1 (job_id job) = Some job"
    "inProgress ?s1 = []" "retries ?s1 = Map.empty" "proofRequestTimeoutMs ?s1 = 30000"
    by (simp_all add: defaultBroker_def newBroker_def enqueueProvingJob_def enqueueJobInternal_def)
  let ?s2 = "dispatchedState t0 (job_type job) job [] ?s1"
  have g1: "getProvingJob t0 \<lparr>allowList = None\<rparr> ?s1 = (Some job, ?s2)"
    by (rule getProvingJob_only) (simp_all add: q1)
  let ?s3 = "timeoutCheck t1 ?s2"
  have q3: "queues ?s3 = (\<lambda>_. [])(job_type job := [job])" "retries ?s3 = Map.empty"
    using q1 assms
    by (simp_all add: timeoutCheck_def timeoutStep_def dispatchedState_def enqueueJobInternal_def
        fun_eq_iff)
  have g3: "getProvingJob t2 \<lparr>allowList = None\<rparr> ?s3 =
      (Some job, dispatchedState t2 (job_type job) job [] ?s3)"
    by (rule getProvingJob_only) (simp_all add: q3)
  show ?thesis
    using g1 g3 q3 by (simp add: noFilter_def dispatchedState_def)
qed

lemma reclaim_scenario:
  "returned_job (Acquire t2 noFilter)
     (run [Enqueue True job, Acquire t0 noFilter, Sweep (t0 + 30000 + 1)] (defaultBroker db)) = Some job \<and>
   retries (run [Enqueue True job, Acquire t0 noFilter, Sweep (t0 + 30000 + 1), Acquire t2 noFilter]
     (defaultBroker db)) (job_id job) = None"
  by (rule reclaim_after) simp

text \<open>
  Claim C7. A pass of \<open>timeoutCheck\<close> at time \<open>now\<close> keeps exactly the leases whose
  id is in \<open>jobsCache\<close> and whose last update is less than \<open>proofRequestTimeoutMs\<close>
  ago (\<open>keptLeases\<close>; \<open>inProgress\<close> has one entry for a key). It puts the job indexed
  under every lease whose last update is at least \<open>proofRequestTimeoutMs\<close> ago on the
  queue of the job's class, in the order of the pass (\<open>reclaimed\<close>), and nothing else:
  a lease whose id is not in \<open>jobsCache\<close> puts nothing on a queue. \<open>retries\<close>,
  \<open>jobsCache\<close>, \<open>resultsCache\<close> and the store are unchanged. Scenario S3, for every
  job: enqueue, acquire at \<open>t0\<close>, sweep at \<open>t0 + 30000 + 1\<close>; the next acquire returns
  the same job, and \<open>retries\<close> has no entry for it (the counter reads 0).
\<close>

theorem C7_timeout_sweep:
  "(distinct (leased s) \<longrightarrow> inProgress (timeoutCheck now s) = keptLeases now s) \<and>
   (\<forall>t. queues (timeoutCheck now s) t =
      putAll (filter (\<lambda>j. job_type j = t) (reclaimed now s (inProgress s))) (queues s t)) \<and>
   retries (timeoutCheck now s) = retries s \<and>
   jobsCache (timeoutCheck now s) = jobsCache s \<and>
   resultsCache (timeoutCheck now s) = resultsCache s \<and>
   database (timeoutCheck now s) = database s \<and>
   returned_job (Acquire t2 noFilter)
     (run [Enqueue True job, Acquire t0 noFilter, Sweep (t0 + 30000 + 1)] (defaultBroker db)) = Some job \<and>
   retries (run [Enqueue True job, Acquire t0 noFilter, Sweep (t0 + 30000 + 1), Acquire t2 noFilter]
     (defaultBroker db)) (job_id job) = None"
  using inProgress_timeoutCheck [of s now] reclaim_scenario [of t2 job t0 db]
  by (simp add: timeoutCheck_def queues_timeoutLoop timeoutLoop_frame)

theorem C7_witness:
  "distinct (leased leasedTwo) \<and>
   leased leasedTwo = [''2'', ''1''] \<and>
   leased (timeoutCheck 30000 leasedTwo) = [''1''] \<and>
   queues (timeoutCheck 30000 leasedTwo) BLOCK_ROOT_ROLLUP = [jobB] \<and>
   queues (timeoutCheck 30000 leasedTwo) PUBLIC_VM = [] \<and>
   retries (timeoutCheck 30000 leasedTwo) = retries leasedTwo"
proof -
  have a: "inProgress leasedTwo =
     [(''2'', \<lparr>meta_id = ''2'', startedAt = 0, lastUpdatedAt = 0\<rparr>),
      (''1'', \<lparr>meta_id = ''1'', startedAt = 20000, lastUpdatedAt = 20000\<rparr>)]"
    "queues leasedTwo = (\<lambda>_. [])" "proofRequestTimeoutMs leasedTwo = 30000"
    "jobsCache leasedTwo ''1'' = Some jobA" "jobsCache leasedTwo ''2'' = Some jobB"
    by (simp_all add: leasedTwo_def scenario_defs op_defs allowedProofs_noFilter
        PROOF_TYPES_IN_PRIORITY_ORDER_def fun_eq_iff)
  show ?thesis
    using C7_timeout_sweep [of leasedTwo 30000]
    by (simp add: a leased_def keptLeases_def reclaimed_def stale_def putAll_def jobA_def jobB_def
        provingJobComparator_def)
qed

section \<open>Recovery\<close>

lemma start_Some:
  "start ((item, Some r) # rest) s =
     start rest (s\<lparr>jobsCache := (jobsCache s)(job_id item \<mapsto> item),
                   resultsCache := (resultsCache s)(job_id item \<mapsto> r)\<rparr>)"
  by simp

lemma start_None:
  "start ((item, None) # rest) s =
     start rest (enqueueJobInternal item (s\<lparr>jobsCache := (jobsCache s)(job_id item \<mapsto> item)\<rparr>))"
  by simp

lemma start_frame:
  "inProgress (start pairs s) = inProgress s \<and>
   retries (start pairs s) = retries s \<and>
   database (start pairs s) = database s \<and>
   proofRequestTimeoutMs (start pairs s) = proofRequestTimeoutMs s \<and>
   maxRetries (start pairs s) = maxRetries s"
proof (induction pairs arbitrary: s)
  case Nil
  show ?case by simp
next
  case (Cons entry rest)
  obtain item res where e: "entry = (item, res)" by (cases entry)
  show ?case
  proof (cases res)
    case None
    show ?thesis unfolding e None start_None using Cons by (simp add: enqueueJobInternal_def)
  next
    case (Some r)
    show ?thesis unfolding e Some start_Some using Cons by simp
  qed
qed

lemma start_other:
  "i \<notin> set (storedIds pairs) \<Longrightarrow>
   jobsCache (start pairs s) i = jobsCache s i \<and> resultsCache (start pairs s) i = resultsCache s i"
proof (induction pairs arbitrary: s)
  case Nil
  show ?case by simp
next
  case (Cons entry rest)
  obtain item res where e: "entry = (item, res)" by (cases entry)
  from Cons.prems e have n: "i \<noteq> job_id item" "i \<notin> set (storedIds rest)"
    by (auto simp: storedIds_def)
  show ?case
  proof (cases res)
    case None
    show ?thesis unfolding e None start_None
      using n(1) Cons.IH [OF n(2)] by (simp add: enqueueJobInternal_def)
  next
    case (Some r)
    show ?thesis unfolding e Some start_Some
      using n(1) Cons.IH [OF n(2)] by simp
  qed
qed

lemma start_stored:
  "distinct (storedIds pairs) \<Longrightarrow> (job, result) \<in> set pairs \<Longrightarrow>
   jobsCache (start pairs s) (job_id job) = Some job \<and>
   resultsCache (start pairs s) (job_id job) =
     (case result of Some r \<Rightarrow> Some r | None \<Rightarrow> resultsCache s (job_id job))"
proof (induction pairs arbitrary: s)
  case Nil
  then show ?case by simp
next
  case (Cons entry rest)
  obtain item res where e: "entry = (item, res)" by (cases entry)
  from Cons.prems(1) e have d: "job_id item \<notin> set (storedIds rest)" "distinct (storedIds rest)"
    by (simp_all add: storedIds_def)
  show ?case
  proof (cases "job = item \<and> result = res")
    case True
    show ?thesis
    proof (cases res)
      case None
      show ?thesis unfolding e None start_None using True None start_other [OF d(1)]
        by (simp add: enqueueJobInternal_def)
    next
      case (Some r)
      show ?thesis unfolding e Some start_Some using True Some start_other [OF d(1)]
        by simp
    qed
  next
    case False
    with Cons.prems(2) e have m: "(job, result) \<in> set rest" by auto
    then have ne: "job_id job \<noteq> job_id item"
      using d(1) by (force simp: storedIds_def)
    show ?thesis
    proof (cases res)
      case None
      show ?thesis unfolding e None start_None using Cons.IH [OF d(2) m] ne
        by (simp add: enqueueJobInternal_def split: option.splits)
    next
      case (Some r)
      show ?thesis unfolding e Some start_Some using Cons.IH [OF d(2) m] ne
        by (simp split: option.splits)
    qed
  qed
qed

lemma unsettled_Cons:
  "unsettled ((item, res) # rest) = (if res = None then item # unsettled rest else unsettled rest)"
  by (simp add: unsettled_def)

lemma putAll_Cons: "putAll (j # jobs) q = putAll jobs (put provingJobComparator j q)"
  by (simp add: putAll_def)

lemma start_queues:
  "queues (start pairs s) t = putAll (filter (\<lambda>j. job_type j = t) (unsettled pairs)) (queues s t)"
proof (induction pairs arbitrary: s)
  case Nil
  show ?case by (simp add: unsettled_def putAll_def)
next
  case (Cons entry rest)
  obtain item res where e: "entry = (item, res)" by (cases entry)
  show ?case
  proof (cases res)
    case None
    show ?thesis unfolding e None start_None
      using Cons by (simp add: unsettled_Cons putAll_Cons enqueueJobInternal_def)
  next
    case (Some r)
    show ?thesis unfolding e Some start_Some
      using Cons by (simp add: unsettled_Cons)
  qed
qed

lemma set_start_queues:
  "set (queues (start pairs s) t) = set (queues s t) \<union> {j \<in> set (unsettled pairs). job_type j = t}"
proof -
  have "set (queues (start pairs s) t) = set_mset (mset (queues (start pairs s) t))" by simp
  also have "\<dots> = set (queues s t) \<union> {j \<in> set (unsettled pairs). job_type j = t}"
    unfolding start_queues mset_putAll by auto
  finally show ?thesis .
qed

lemma stored_unique:
  assumes "distinct (storedIds pairs)" "(j1, r1) \<in> set pairs" "(j2, r2) \<in> set pairs"
    "job_id j1 = job_id j2"
  shows "j1 = j2 \<and> r1 = r2"
proof -
  from assms(1) have "inj_on (\<lambda>(job, result). job_id job) (set pairs)"
    by (simp add: storedIds_def distinct_map)
  from inj_onD [OF this _ assms(2,3)] assms(4) show ?thesis by simp
qed

lemma unsettled_iff: "(j \<in> set (unsettled pairs)) = ((j, None) \<in> set pairs)"
  by (force simp: unsettled_def)

lemma recovered_queues:
  "set (queues (recovered pairs db tmo mr) t) = {j \<in> set (unsettled pairs). job_type j = t}"
  by (simp add: recovered_def set_start_queues newBroker_def)

lemma recovered_queued: "set (queued (recovered pairs db tmo mr)) = set (unsettled pairs)"
  by (auto simp: set_queued recovered_queues)

lemma recovered_seeded:
  "jobsCache (recovered seededStore db tmo mr) = [''J1'' \<mapsto> J1, ''J2'' \<mapsto> J2, ''J3'' \<mapsto> J3]"
  "resultsCache (recovered seededStore db tmo mr) =
     [''J1'' \<mapsto> ResultValue ''proof'', ''J3'' \<mapsto> ResultError ''boom'']"
  "queues (recovered seededStore db tmo mr) = (\<lambda>_. [])(TUBE_PROOF := [J2])"
  by (simp_all add: recovered_def seededStore_def J1_def J2_def J3_def newBroker_def
      enqueueJobInternal_def)

lemma s6:
  "getProvingJobStatus ''J1'' (recovered seededStore db tmo mr) = Resolved ''proof''"
  "getProvingJobStatus ''J3'' (recovered seededStore db tmo mr) = Rejected ''boom''"
  "fst (getProvingJob now noFilter (recovered seededStore db tmo mr)) = Some J2"
  "dom (jobsCache (recovered seededStore db tmo mr)) = {''J1'', ''J2'', ''J3''}"
proof -
  show "getProvingJobStatus ''J1'' (recovered seededStore db tmo mr) = Resolved ''proof''"
    by (simp add: getProvingJobStatus_def recovered_seeded)
  show "getProvingJobStatus ''J3'' (recovered seededStore db tmo mr) = Rejected ''boom''"
    by (simp add: getProvingJobStatus_def recovered_seeded)
  have "getProvingJob now \<lparr>allowList = None\<rparr> (recovered seededStore db tmo mr) =
     (Some J2, dispatchedState now TUBE_PROOF J2 [] (recovered seededStore db tmo mr))"
    by (rule getProvingJob_only) (simp_all add: recovered_seeded)
  then show "fst (getProvingJob now noFilter (recovered seededStore db tmo mr)) = Some J2"
    by (simp add: noFilter_def)
  show "dom (jobsCache (recovered seededStore db tmo mr)) = {''J1'', ''J2'', ''J3''}"
    unfolding recovered_seeded by auto
qed

text \<open>
  Claim C9. \<open>start\<close> on a new broker, over an enumeration that lists every id once:
  every enumerated job is in \<open>jobsCache\<close> under its id; \<open>resultsCache\<close> holds for it
  exactly the result enumerated with it, or nothing when there is none; a job with a
  result is in no queue, a job without one is in the queue of its class; an id that is
  not enumerated has neither job nor result; the queues hold the enumerated jobs without
  a result and nothing else; there is no lease. Scenario S6: on the seeded store, the
  status of \<open>J1\<close> is \<open>Resolved\<close>, that of \<open>J3\<close> is \<open>Rejected\<close>, an acquire returns
  \<open>J2\<close>, and the indexed ids are those three.
\<close>

theorem C9_recovery:
  "(distinct (storedIds pairs) \<longrightarrow>
      (\<forall>(job, result) \<in> set pairs.
         jobsCache (recovered pairs db tmo mr) (job_id job) = Some job \<and>
         resultsCache (recovered pairs db tmo mr) (job_id job) = result \<and>
         (case result of
            None \<Rightarrow> job \<in> set (queues (recovered pairs db tmo mr) (job_type job))
          | Some r \<Rightarrow> job_id job \<notin> set (map job_id (queued (recovered pairs db tmo mr)))))) \<and>
   (\<forall>i. i \<notin> set (storedIds pairs) \<longrightarrow>
      jobsCache (recovered pairs db tmo mr) i = None \<and>
      resultsCache (recovered pairs db tmo mr) i = None) \<and>
   (\<forall>t. set (queues (recovered pairs db tmo mr) t) = {j \<in> set (unsettled pairs). job_type j = t}) \<and>
   inProgress (recovered pairs db tmo mr) = [] \<and>
   getProvingJobStatus ''J1'' (recovered seededStore db tmo mr) = Resolved ''proof'' \<and>
   getProvingJobStatus ''J3'' (recovered seededStore db tmo mr) = Rejected ''boom'' \<and>
   fst (getProvingJob now noFilter (recovered seededStore db tmo mr)) = Some J2 \<and>
   dom (jobsCache (recovered seededStore db tmo mr)) = {''J1'', ''J2'', ''J3''}"
proof -
  let ?s = "recovered pairs db tmo mr"
  have a: "jobsCache ?s (job_id job) = Some job \<and> resultsCache ?s (job_id job) = result \<and>
         (case result of
            None \<Rightarrow> job \<in> set (queues ?s (job_type job))
          | Some r \<Rightarrow> job_id job \<notin> set (map job_id (queued ?s)))"
    if d: "distinct (storedIds pairs)" and m: "(job, result) \<in> set pairs" for job result
  proof -
    from start_stored [OF d m, of "newBroker db tmo mr"]
    have c: "jobsCache ?s (job_id job) = Some job" "resultsCache ?s (job_id job) = result"
      by (auto simp: recovered_def newBroker_def split: option.splits)
    have "job \<in> set (queues ?s (job_type job))" if "result = None"
      using that m by (simp add: recovered_queues unsettled_iff)
    moreover have "job_id job \<notin> set (map job_id (queued ?s))" if r: "result = Some r" for r
    proof
      assume "job_id job \<in> set (map job_id (queued ?s))"
      then obtain j where j: "(j, None) \<in> set pairs" "job_id job = job_id j"
        by (auto simp: recovered_queued unsettled_iff)
      from stored_unique [OF d m j(1) j(2)] r show False by simp
    qed
    ultimately show ?thesis using c by (simp split: option.splits)
  qed
  have b: "jobsCache ?s i = None \<and> resultsCache ?s i = None" if "i \<notin> set (storedIds pairs)" for i
    using start_other [OF that, of "newBroker db tmo mr"] by (simp add: recovered_def newBroker_def)
  have c: "inProgress ?s = []"
    using start_frame [of pairs "newBroker db tmo mr"] by (simp add: recovered_def newBroker_def)
  have a': "distinct (storedIds pairs) \<longrightarrow>
      (\<forall>(job, result) \<in> set pairs.
         jobsCache ?s (job_id job) = Some job \<and>
         resultsCache ?s (job_id job) = result \<and>
         (case result of
            None \<Rightarrow> job \<in> set (queues ?s (job_type job))
          | Some r \<Rightarrow> job_id job \<notin> set (map job_id (queued ?s))))"
    using a by blast
  have b': "\<forall>i. i \<notin> set (storedIds pairs) \<longrightarrow> jobsCache ?s i = None \<and> resultsCache ?s i = None"
    using b by blast
  have q': "\<forall>t. set (queues ?s t) = {j \<in> set (unsettled pairs). job_type j = t}"
    using recovered_queues by blast
  show ?thesis
    by (intro conjI a' b' q' c s6)
qed


theorem C9_witness:
  "distinct (storedIds seededStore) \<and>
   jobsCache (recovered seededStore emptyDatabase 30000 3) ''J2'' = Some J2 \<and>
   resultsCache (recovered seededStore emptyDatabase 30000 3) ''J1'' = Some (ResultValue ''proof'') \<and>
   ''J1'' \<notin> set (map job_id (queued (recovered seededStore emptyDatabase 30000 3))) \<and>
   resultsCache (recovered seededStore emptyDatabase 30000 3) ''J2'' = None \<and>
   J2 \<in> set (queues (recovered seededStore emptyDatabase 30000 3) TUBE_PROOF) \<and>
   jobsCache (recovered seededStore emptyDatabase 30000 3) ''J4'' = None"
proof -
  let ?s = "recovered seededStore emptyDatabase 30000 3"
  have d: "distinct (storedIds seededStore)" "''J4'' \<notin> set (storedIds seededStore)"
    by (simp_all add: storedIds_def seededStore_def J1_def J2_def J3_def)
  have m: "(J1, Some (ResultValue ''proof'')) \<in> set seededStore" "(J2, None) \<in> set seededStore"
    by (simp_all add: seededStore_def)
  have f: "job_id J1 = ''J1''" "job_id J2 = ''J2''" "job_type J2 = TUBE_PROOF"
    by (simp_all add: J1_def J2_def)
  note inst = C9_recovery [of seededStore emptyDatabase 30000 3 0]
  from inst have "distinct (storedIds seededStore) \<longrightarrow>
      (\<forall>(job, result) \<in> set seededStore.
         jobsCache ?s (job_id job) = Some job \<and>
         resultsCache ?s (job_id job) = result \<and>
         (case result of
            None \<Rightarrow> job \<in> set (queues ?s (job_type job))
          | Some r \<Rightarrow> job_id job \<notin> set (map job_id (queued ?s))))"
    by (rule conjunct1)
  from this d(1) have all: "\<forall>(job, result) \<in> set seededStore.
         jobsCache ?s (job_id job) = Some job \<and>
         resultsCache ?s (job_id job) = result \<and>
         (case result of
            None \<Rightarrow> job \<in> set (queues ?s (job_type job))
          | Some r \<Rightarrow> job_id job \<notin> set (map job_id (queued ?s)))"
    by (rule mp)
  from bspec [OF all m(1)] have j1: "resultsCache ?s ''J1'' = Some (ResultValue ''proof'')"
    "''J1'' \<notin> set (map job_id (queued ?s))"
    by (simp_all add: f)
  from bspec [OF all m(2)] have j2: "jobsCache ?s ''J2'' = Some J2" "resultsCache ?s ''J2'' = None"
    "J2 \<in> set (queues ?s TUBE_PROOF)"
    by (simp_all add: f)
  from inst have "\<forall>i. i \<notin> set (storedIds seededStore) \<longrightarrow>
      jobsCache ?s i = None \<and> resultsCache ?s i = None"
    by (rule conjunct2 [THEN conjunct1])
  with d(2) have j4: "jobsCache ?s ''J4'' = None" by blast
  show ?thesis by (intro conjI d(1) j1 j2 j4)
qed

section \<open>Ranks and the order of the queues\<close>

subsection \<open>Ranks\<close>

lemma rank_values:
  "rank BLOCK_ROOT_ROLLUP = 0" "rank BLOCK_MERGE_ROLLUP = 1" "rank ROOT_ROLLUP = 2"
  "rank MERGE_ROLLUP = 3" "rank PUBLIC_BASE_ROLLUP = 4" "rank PRIVATE_BASE_ROLLUP = 5"
  "rank PUBLIC_VM = 6" "rank TUBE_PROOF = 7" "rank ROOT_PARITY = 8" "rank BASE_PARITY = 9"
  "rank EMPTY_BLOCK_ROOT_ROLLUP = 10" "rank PRIVATE_KERNEL_EMPTY = 11"
  by (simp_all add: rank_def PROOF_TYPES_IN_PRIORITY_ORDER_def)

lemma rank_nonneg: "0 \<le> rank t"
  by (cases t) (simp_all add: rank_values)

lemma proofTypeComparator_rank: "(proofTypeComparator a b \<le> 0) = (rank a \<le> rank b)"
  using rank_nonneg [of a] rank_nonneg [of b]
  by (simp add: proofTypeComparator_def rank_def Let_def)

lemma insert_sorted_rank: "insert_sorted proofTypeComparator x ys = insort_key rank x ys"
  by (induction ys) (simp_all add: proofTypeComparator_rank)

lemma array_sort_rank: "array_sort proofTypeComparator xs = sort_key rank xs"
  by (induction xs) (simp_all add: array_sort_def insert_sorted_rank)

lemma sorted_allowedProofs: "sorted (map rank (allowedProofs f))"
  by (simp add: allowedProofs_def array_sort_rank)

lemma set_allowedProofs: "set (allowedProofs f) = allowed f"
  by (simp add: allowedProofs_def allowed_def set_array_sort split: option.splits)

subsection \<open>Well-formed queues\<close>

lemma queues_wf_iff:
  "queues_wf s = (\<forall>t. sorted (map blockNumber (queues s t)) \<and> (\<forall>j \<in> set (queues s t). job_type j = t))"
  by (simp add: queues_wf_def set_ProvingRequestType_values)

lemma queues_wf_same: "queues s' = queues s \<Longrightarrow> queues_wf s' = queues_wf s"
  by (simp add: queues_wf_iff)

lemma queues_wf_newBroker: "queues_wf (newBroker db tmo mr)"
  by (simp add: queues_wf_iff newBroker_def)

lemma queues_wf_enqueueJobInternal: "queues_wf s \<Longrightarrow> queues_wf (enqueueJobInternal job s)"
  by (simp add: queues_wf_iff enqueueJobInternal_def sorted_put set_put)

lemma queues_wf_dispatchedState:
  assumes "queues_wf s" and "queues s t = item # q"
  shows "queues_wf (dispatchedState now t item q s)"
proof -
  from assms have "sorted (map blockNumber (item # q)) \<and> (\<forall>j \<in> set (item # q). job_type j = t)"
    unfolding queues_wf_iff by metis
  then have "sorted (map blockNumber q) \<and> (\<forall>j \<in> set q. job_type j = t)" by simp
  with assms(1) show ?thesis by (simp add: queues_wf_iff dispatchedState_def)
qed

lemma queues_wf_getFromQueues: "queues_wf s \<Longrightarrow> queues_wf (snd (getFromQueues now ts s))"
  using getFromQueues_cases [of now ts s] by (auto simp: queues_wf_dispatchedState)

lemma queues_wf_timeoutStep: "queues_wf s \<Longrightarrow> queues_wf (timeoutStep now entry s)"
proof -
  assume a: "queues_wf s"
  obtain i m where e: "entry = (i, m)" by (cases entry)
  have b: "queues_wf (s\<lparr>inProgress := AList.delete i (inProgress s)\<rparr>)"
    using a by (simp add: queues_wf_iff)
  show ?thesis
    unfolding e timeoutStep_def
    using a b by (simp add: queues_wf_enqueueJobInternal split: option.splits)
qed

lemma queues_wf_timeoutLoop: "queues_wf s \<Longrightarrow> queues_wf (timeoutLoop now entries s)"
  by (induction entries arbitrary: s) (simp_all add: queues_wf_timeoutStep)

lemma queues_wf_dropLease: "queues_wf (dropLease i s) = queues_wf s"
  by (rule queues_wf_same) (simp add: dropLease_def split: option.splits)

lemma queues_wf_exec: "queues_wf s \<Longrightarrow> queues_wf (exec op s)"
proof (cases op)
  case (Enqueue ok job)
  assume a: "queues_wf s"
  have "queues_wf (enqueueJobInternal job
      (s\<lparr>database := addProvingJob job (database s), jobsCache := (jobsCache s)(job_id job \<mapsto> job)\<rparr>))"
    by (rule queues_wf_enqueueJobInternal) (use a in \<open>simp add: queues_wf_iff\<close>)
  with a show ?thesis
    by (simp add: Enqueue enqueueProvingJob_def split: option.splits)
next
  case (Cancel ok i)
  assume "queues_wf s"
  then show ?thesis by (simp add: Cancel removeAndCancelProvingJob_def queues_wf_iff)
next
  case (Status i)
  assume "queues_wf s"
  then show ?thesis by (simp add: Status)
next
  case (Acquire now f)
  assume "queues_wf s"
  then show ?thesis by (simp add: Acquire getProvingJob_def queues_wf_getFromQueues)
next
  case (Heartbeat now i f)
  assume a: "queues_wf s"
  then show ?thesis
    by (simp add: Heartbeat reportProvingJobProgress_def getProvingJob_def queues_wf_getFromQueues
        queues_wf_iff [of "s\<lparr>inProgress := _\<rparr>"] split: option.splits)
      (simp add: queues_wf_iff)
next
  case (ReportSuccess ok i v)
  assume a: "queues_wf s"
  then have "queues_wf (dropLease i s)" by (simp add: queues_wf_dropLease)
  with a show ?thesis
    by (simp add: ReportSuccess reportProvingJobSuccess_def queues_wf_iff Let_def split: option.splits)
next
  case (ReportFailure ok i e r)
  assume a: "queues_wf s"
  then have d: "queues_wf (dropLease i s)" by (simp add: queues_wf_dropLease)
  have "queues_wf (enqueueJobInternal item
      ((dropLease i s)\<lparr>retries := (retries (dropLease i s))(i \<mapsto> retriesOf s i + 1)\<rparr>))" for item
    by (rule queues_wf_enqueueJobInternal) (use d in \<open>simp add: queues_wf_iff\<close>)
  moreover have "queues_wf ((dropLease i s)\<lparr>database := setProvingJobError i e (database (dropLease i s)),
        resultsCache := (resultsCache (dropLease i s))(i \<mapsto> ResultError e)\<rparr>)"
    using d by (simp add: queues_wf_iff)
  ultimately show ?thesis
    using a d by (simp add: ReportFailure reportProvingJobError_def Let_def split: option.splits)
next
  case (Sweep now)
  assume "queues_wf s"
  then show ?thesis by (simp add: Sweep timeoutCheck_def queues_wf_timeoutLoop)
qed

lemma queues_wf_run: "queues_wf s \<Longrightarrow> queues_wf (run ops s)"
  by (induction ops arbitrary: s) (simp_all add: queues_wf_exec)

section \<open>The order of dispatch\<close>

lemma getProvingJob_Some:
  assumes "getProvingJob now f s = (Some item, s')"
  shows "\<exists>t q. t \<in> allowed f \<and> queues s t = item # q \<and> s' = dispatchedState now t item q s \<and>
     (\<forall>u \<in> allowed f. queues s u \<noteq> [] \<longrightarrow> rank t \<le> rank u)"
proof -
  from getFromQueues_cases [of now "allowedProofs f" s] assms
  obtain pre t post q where h: "allowedProofs f = pre @ t # post" "\<forall>u \<in> set pre. queues s u = []"
    "queues s t = item # q" "s' = dispatchedState now t item q s"
    by (auto simp: getProvingJob_def)
  have t: "t \<in> allowed f"
    using h(1) set_allowedProofs [of f] by auto
  have "rank t \<le> rank u" if u: "u \<in> allowed f" "queues s u \<noteq> []" for u
  proof -
    from u(1) have "u \<in> set pre \<or> u = t \<or> u \<in> set post"
      using h(1) set_allowedProofs [of f] by auto
    moreover have "u \<notin> set pre" using h(2) u(2) by blast
    moreover have "rank t \<le> rank u" if "u \<in> set post"
      using sorted_allowedProofs [of f] that unfolding h(1) by (simp add: sorted_append)
    ultimately show ?thesis by auto
  qed
  with t h(3,4) show ?thesis by blast
qed

lemma scenario_S1:
  "returned_job (Acquire now noFilter) (run [Enqueue True jobA, Enqueue True jobB] freshBroker) = Some jobB"
  by (simp add: scenario_defs op_defs allowedProofs_noFilter PROOF_TYPES_IN_PRIORITY_ORDER_def)

lemma allowed_merge:
  "allowedProofs \<lparr>allowList = Some [MERGE_ROLLUP]\<rparr> = [MERGE_ROLLUP]"
  by (simp add: allowedProofs_def array_sort_def)

lemma scenario_S2:
  "returned_job (Acquire n1 \<lparr>allowList = Some [MERGE_ROLLUP]\<rparr>)
     (run [Enqueue True jobM7, Enqueue True jobM3] freshBroker) = Some jobM3"
  "returned_job (Acquire n2 \<lparr>allowList = Some [MERGE_ROLLUP]\<rparr>)
     (run [Enqueue True jobM7, Enqueue True jobM3, Acquire n1 \<lparr>allowList = Some [MERGE_ROLLUP]\<rparr>]
        freshBroker) = Some jobM7"
  by (simp_all add: scenario_defs op_defs allowed_merge)

lemma getProvingJob_None:
  "(fst (getProvingJob now f s) = None) = (\<forall>t \<in> allowed f. queues s t = [])"
  by (simp add: getProvingJob_def getFromQueues_None set_allowedProofs)

lemma getProvingJob_None_state:
  "fst (getProvingJob now f s) = None \<Longrightarrow> snd (getProvingJob now f s) = s"
  using getFromQueues_cases [of now "allowedProofs f" s] by (auto simp: getProvingJob_def)

lemma queues_wf_start: "queues_wf s \<Longrightarrow> queues_wf (start pairs s)"
proof (induction pairs arbitrary: s)
  case Nil
  then show ?case by simp
next
  case (Cons entry rest)
  obtain item res where e: "entry = (item, res)" by (cases entry)
  let ?s1 = "s\<lparr>jobsCache := (jobsCache s)(job_id item \<mapsto> item)\<rparr>"
  have w1: "queues_wf ?s1"
    using Cons.prems queues_wf_same [of ?s1 s] by simp
  show ?case
  proof (cases res)
    case None
    have "queues_wf (enqueueJobInternal item ?s1)"
      using w1 by (rule queues_wf_enqueueJobInternal)
    then have "queues_wf (start rest (enqueueJobInternal item ?s1))" by (rule Cons.IH)
    then show ?thesis unfolding e None start_None .
  next
    case (Some v)
    let ?s2 = "s\<lparr>jobsCache := (jobsCache s)(job_id item \<mapsto> item),
                  resultsCache := (resultsCache s)(job_id item \<mapsto> v)\<rparr>"
    have "queues_wf ?s2"
      using Cons.prems queues_wf_same [of ?s2 s] by simp
    then have "queues_wf (start rest ?s2)" by (rule Cons.IH)
    then show ?thesis unfolding e Some start_Some .
  qed
qed

lemma queues_wf_recovered: "queues_wf (recovered pairs db tmo mr)"
  unfolding recovered_def by (rule queues_wf_start) (rule queues_wf_newBroker)

lemma indexOf_absent: "(indexOf xs a = - 1) = (a \<notin> set xs)"
proof (induction xs)
  case Nil
  show ?case by simp
next
  case (Cons x xs)
  have "- 1 \<le> indexOf ys a" for ys :: "'a list"
    by (induction ys) (simp_all add: Let_def)
  from this [of xs] Cons show ?case by (auto simp: Let_def)
qed

lemma proofTypeComparator_over:
  "proofTypeComparator a b = comparatorOver PROOF_TYPES_IN_PRIORITY_ORDER a b"
  by (simp add: proofTypeComparator_def comparatorOver_def)

lemma comparatorOver_unranked:
  "a \<in> set order \<Longrightarrow> b \<notin> set order \<Longrightarrow>
   comparatorOver order a b = - 1 \<and> comparatorOver order b a = 1"
  using indexOf_absent [of order a] indexOf_absent [of order b]
  by (simp add: comparatorOver_def Let_def)

text \<open>
  Claim C6. \<open>getProvingJob\<close> returns no job exactly when the queue of every allowed
  class is empty, and then leaves the state as it was. When it returns a job, in a state
  whose queues are as \<open>put\<close> leaves them (which every sequence of operations on a new
  or a recovered broker maintains): the class of the job is allowed; no allowed class with
  a non-empty queue has a smaller rank; the job was the head of the queue of its class,
  and no job of that queue has a smaller block number. Among jobs of equal block number
  the head is the one put first, since \<open>put\<close> places a job behind every queued job whose
  block number is not greater. The rank is the position in the fixed order. Every class
  of the enumeration is ranked; the comparator, taken over any list, puts a class that the
  list ranks before a class that it does not. Scenario S1 returns \<open>jobB\<close>; scenario S2
  returns the job of block 3 and then the job of block 7.
\<close>

theorem C6_dispatch_order:
  "(queues_wf s \<and> getProvingJob now f s = (Some item, s') \<longrightarrow>
      job_type item \<in> allowed f \<and>
      (\<forall>t \<in> allowed f. queues s t \<noteq> [] \<longrightarrow> rank (job_type item) \<le> rank t) \<and>
      (\<exists>q. queues s (job_type item) = item # q \<and> s' = dispatchedState now (job_type item) item q s) \<and>
      (\<forall>j \<in> set (queues s (job_type item)). blockNumber item \<le> blockNumber j)) \<and>
   ((fst (getProvingJob now f s) = None) = (\<forall>t \<in> allowed f. queues s t = [])) \<and>
   (fst (getProvingJob now f s) = None \<longrightarrow> snd (getProvingJob now f s) = s) \<and>
   queues_wf (run ops (newBroker db tmo mr)) \<and>
   queues_wf (run ops (recovered pairs db tmo mr)) \<and>
   (sorted (map blockNumber q') \<longrightarrow>
      put provingJobComparator x q' =
        filter (\<lambda>y. blockNumber y \<le> blockNumber x) q' @ x # filter (\<lambda>y. blockNumber x < blockNumber y) q') \<and>
   map rank
     [BLOCK_ROOT_ROLLUP, BLOCK_MERGE_ROLLUP, ROOT_ROLLUP, MERGE_ROLLUP, PUBLIC_BASE_ROLLUP,
      PRIVATE_BASE_ROLLUP, PUBLIC_VM, TUBE_PROOF, ROOT_PARITY, BASE_PARITY,
      EMPTY_BLOCK_ROOT_ROLLUP, PRIVATE_KERNEL_EMPTY] = [0, 1, 2, 3, 4, 5, 6, 7, 8, 9, 10, 11] \<and>
   (\<forall>t. 0 \<le> rank t) \<and>
   proofTypeComparator c1 c2 = comparatorOver PROOF_TYPES_IN_PRIORITY_ORDER c1 c2 \<and>
   (c1 \<in> set order \<and> c2 \<notin> set order \<longrightarrow>
      comparatorOver order c1 c2 = - 1 \<and> comparatorOver order c2 c1 = 1) \<and>
   returned_job (Acquire n0 noFilter) (run [Enqueue True jobA, Enqueue True jobB] freshBroker) = Some jobB \<and>
   returned_job (Acquire n1 \<lparr>allowList = Some [MERGE_ROLLUP]\<rparr>)
     (run [Enqueue True jobM7, Enqueue True jobM3] freshBroker) = Some jobM3 \<and>
   returned_job (Acquire n2 \<lparr>allowList = Some [MERGE_ROLLUP]\<rparr>)
     (run [Enqueue True jobM7, Enqueue True jobM3, Acquire n1 \<lparr>allowList = Some [MERGE_ROLLUP]\<rparr>]
        freshBroker) = Some jobM7"
proof -
  have a: "job_type item \<in> allowed f \<and>
      (\<forall>t \<in> allowed f. queues s t \<noteq> [] \<longrightarrow> rank (job_type item) \<le> rank t) \<and>
      (\<exists>q. queues s (job_type item) = item # q \<and> s' = dispatchedState now (job_type item) item q s) \<and>
      (\<forall>j \<in> set (queues s (job_type item)). blockNumber item \<le> blockNumber j)"
    if wf: "queues_wf s" and g: "getProvingJob now f s = (Some item, s')"
  proof -
    from getProvingJob_Some [OF g] obtain t q where h: "t \<in> allowed f" "queues s t = item # q"
      "s' = dispatchedState now t item q s" "\<forall>u \<in> allowed f. queues s u \<noteq> [] \<longrightarrow> rank t \<le> rank u"
      by blast
    from wf have w: "sorted (map blockNumber (queues s t))" "\<forall>j \<in> set (queues s t). job_type j = t"
      by (simp_all add: queues_wf_iff)
    from w(2) h(2) have ty: "job_type item = t" by simp
    from w(1) h(2) have "\<forall>j \<in> set (queues s t). blockNumber item \<le> blockNumber j" by auto
    with h ty show ?thesis by blast
  qed
  have b: "queues_wf (run ops (newBroker db tmo mr))"
    by (rule queues_wf_run) (rule queues_wf_newBroker)
  have n: "(fst (getProvingJob now f s) = None) = (\<forall>t \<in> allowed f. queues s t = [])"
    by (rule getProvingJob_None)
  have ns: "fst (getProvingJob now f s) = None \<longrightarrow> snd (getProvingJob now f s) = s"
    using getProvingJob_None_state by blast
  have br: "queues_wf (run ops (recovered pairs db tmo mr))"
    by (rule queues_wf_run) (rule queues_wf_recovered)
  have u: "proofTypeComparator c1 c2 = comparatorOver PROOF_TYPES_IN_PRIORITY_ORDER c1 c2"
    by (rule proofTypeComparator_over)
  have u': "c1 \<in> set order \<and> c2 \<notin> set order \<longrightarrow>
      comparatorOver order c1 c2 = - 1 \<and> comparatorOver order c2 c1 = 1"
    using comparatorOver_unranked by blast
  have c: "sorted (map blockNumber q') \<longrightarrow>
      put provingJobComparator x q' =
        filter (\<lambda>y. blockNumber y \<le> blockNumber x) q' @ x # filter (\<lambda>y. blockNumber x < blockNumber y) q'"
    using put_by_blockNumber by blast
  have d: "map rank
     [BLOCK_ROOT_ROLLUP, BLOCK_MERGE_ROLLUP, ROOT_ROLLUP, MERGE_ROLLUP, PUBLIC_BASE_ROLLUP,
      PRIVATE_BASE_ROLLUP, PUBLIC_VM, TUBE_PROOF, ROOT_PARITY, BASE_PARITY,
      EMPTY_BLOCK_ROOT_ROLLUP, PRIVATE_KERNEL_EMPTY] = [0, 1, 2, 3, 4, 5, 6, 7, 8, 9, 10, 11]"
    by (simp add: rank_values)
  have e: "\<forall>t. 0 \<le> rank t" by (simp add: rank_nonneg)
  have a': "queues_wf s \<and> getProvingJob now f s = (Some item, s') \<longrightarrow>
      job_type item \<in> allowed f \<and>
      (\<forall>t \<in> allowed f. queues s t \<noteq> [] \<longrightarrow> rank (job_type item) \<le> rank t) \<and>
      (\<exists>q. queues s (job_type item) = item # q \<and> s' = dispatchedState now (job_type item) item q s) \<and>
      (\<forall>j \<in> set (queues s (job_type item)). blockNumber item \<le> blockNumber j)"
    using a by blast
  show ?thesis
    by (intro conjI a' n ns b br c d e u u' scenario_S1 scenario_S2)
qed

theorem C6_witness:
  "queues_wf twoQueued \<and>
   getProvingJob 0 noFilter twoQueued = (Some jobB, snd (getProvingJob 0 noFilter twoQueued)) \<and>
   queues twoQueued PUBLIC_VM = [jobA] \<and> PUBLIC_VM \<in> allowed noFilter \<and>
   job_type jobB \<in> allowed noFilter \<and>
   rank (job_type jobB) \<le> rank PUBLIC_VM \<and>
   queues twoQueued (job_type jobB) = [jobB] \<and>
   fst (getProvingJob 0 \<lparr>allowList = Some [TUBE_PROOF, PUBLIC_VM]\<rparr> twoQueued) \<noteq> None \<and>
   TUBE_PROOF \<in> allowed \<lparr>allowList = Some [TUBE_PROOF]\<rparr> \<and>
   fst (getProvingJob 0 \<lparr>allowList = Some [TUBE_PROOF]\<rparr> twoQueued) = None \<and>
   snd (getProvingJob 0 \<lparr>allowList = Some [TUBE_PROOF]\<rparr> twoQueued) = twoQueued \<and>
   sorted (map blockNumber [jobM7]) \<and>
   put provingJobComparator jobM3 [jobM7] = [jobM3, jobM7] \<and>
   BLOCK_ROOT_ROLLUP \<in> set [BLOCK_ROOT_ROLLUP] \<and> PUBLIC_VM \<notin> set [BLOCK_ROOT_ROLLUP] \<and>
   comparatorOver [BLOCK_ROOT_ROLLUP] BLOCK_ROOT_ROLLUP PUBLIC_VM = - 1 \<and>
   comparatorOver [BLOCK_ROOT_ROLLUP] PUBLIC_VM BLOCK_ROOT_ROLLUP = 1"
proof -
  have wf: "queues_wf twoQueued"
    unfolding twoQueued_def
    using C6_dispatch_order
      [where ops = "[Enqueue True jobA, Enqueue True jobB]" and db = emptyDatabase
         and tmo = 30000 and mr = 3]
    by blast
  have q: "queues twoQueued PUBLIC_VM = [jobA]" "PUBLIC_VM \<in> allowed noFilter"
    by (simp_all add: twoQueued_def scenario_defs op_defs allowed_def ProvingRequestType_values_def)
  have qt: "queues twoQueued TUBE_PROOF = []" "queues twoQueued (job_type jobB) = [jobB]"
    by (simp_all add: twoQueued_def scenario_defs op_defs)
  have g: "getProvingJob 0 noFilter twoQueued = (Some jobB, snd (getProvingJob 0 noFilter twoQueued))"
    by (simp add: twoQueued_def scenario_defs op_defs allowedProofs_noFilter
        PROOF_TYPES_IN_PRIORITY_ORDER_def)
  have s7: "sorted (map blockNumber [jobM7])" by simp
  from C6_dispatch_order
    [where s = twoQueued and now = 0 and f = noFilter and item = jobB
       and s' = "snd (getProvingJob 0 noFilter twoQueued)"] wf g
  have r: "job_type jobB \<in> allowed noFilter"
    "\<forall>t \<in> allowed noFilter. queues twoQueued t \<noteq> [] \<longrightarrow> rank (job_type jobB) \<le> rank t"
    by blast+
  from r(2) q have r2: "rank (job_type jobB) \<le> rank PUBLIC_VM" by simp
  have al: "allowed \<lparr>allowList = Some [TUBE_PROOF, PUBLIC_VM]\<rparr> = {TUBE_PROOF, PUBLIC_VM}"
    "allowed \<lparr>allowList = Some [TUBE_PROOF]\<rparr> = {TUBE_PROOF}"
    by (simp_all add: allowed_def)
  from C6_dispatch_order
    [where s = twoQueued and now = 0 and f = "\<lparr>allowList = Some [TUBE_PROOF, PUBLIC_VM]\<rparr>"]
  have "(fst (getProvingJob 0 \<lparr>allowList = Some [TUBE_PROOF, PUBLIC_VM]\<rparr> twoQueued) = None) =
      (\<forall>t \<in> allowed \<lparr>allowList = Some [TUBE_PROOF, PUBLIC_VM]\<rparr>. queues twoQueued t = [])"
    by blast
  then have k1: "fst (getProvingJob 0 \<lparr>allowList = Some [TUBE_PROOF, PUBLIC_VM]\<rparr> twoQueued) \<noteq> None"
    by (simp add: al q)
  from C6_dispatch_order
    [where s = twoQueued and now = 0 and f = "\<lparr>allowList = Some [TUBE_PROOF]\<rparr>"]
  have "(fst (getProvingJob 0 \<lparr>allowList = Some [TUBE_PROOF]\<rparr> twoQueued) = None) =
      (\<forall>t \<in> allowed \<lparr>allowList = Some [TUBE_PROOF]\<rparr>. queues twoQueued t = [])"
    and "fst (getProvingJob 0 \<lparr>allowList = Some [TUBE_PROOF]\<rparr> twoQueued) = None \<longrightarrow>
      snd (getProvingJob 0 \<lparr>allowList = Some [TUBE_PROOF]\<rparr> twoQueued) = twoQueued"
    by blast+
  then have k2: "fst (getProvingJob 0 \<lparr>allowList = Some [TUBE_PROOF]\<rparr> twoQueued) = None"
    "snd (getProvingJob 0 \<lparr>allowList = Some [TUBE_PROOF]\<rparr> twoQueued) = twoQueued"
    by (simp_all add: al qt)
  from C6_dispatch_order [where q' = "[jobM7]" and x = jobM3] s7
  have p: "put provingJobComparator jobM3 [jobM7] = [jobM3, jobM7]"
    by (simp add: jobM3_def jobM7_def)
  have m: "BLOCK_ROOT_ROLLUP \<in> set [BLOCK_ROOT_ROLLUP]" "PUBLIC_VM \<notin> set [BLOCK_ROOT_ROLLUP]"
    by simp_all
  from C6_dispatch_order
    [where ?c1.0 = BLOCK_ROOT_ROLLUP and ?c2.0 = PUBLIC_VM and order = "[BLOCK_ROOT_ROLLUP]"] m
  have cu: "comparatorOver [BLOCK_ROOT_ROLLUP] BLOCK_ROOT_ROLLUP PUBLIC_VM = - 1"
    "comparatorOver [BLOCK_ROOT_ROLLUP] PUBLIC_VM BLOCK_ROOT_ROLLUP = 1"
    by blast+
  have ta: "TUBE_PROOF \<in> allowed \<lparr>allowList = Some [TUBE_PROOF]\<rparr>" by (simp add: al)
  show ?thesis
    by (intro conjI wf g q r(1) r2 qt(2) k1 ta k2 s7 p m cu)
qed

section \<open>Leases\<close>

subsection \<open>The leased ids\<close>

lemma leased_delete [simp]:
  "leased (s\<lparr>inProgress := AList.delete i (inProgress s)\<rparr>) = removeAll i (leased s)"
  by (simp add: leased_def delete_keys)

lemma set_leased_update [simp]:
  "set (leased (s\<lparr>inProgress := AList.update k v (inProgress s)\<rparr>)) = insert k (set (leased s))"
  using dom_update [of k v "inProgress s"] by (simp add: leased_def)

lemma distinct_leased_update:
  "distinct (leased s) \<Longrightarrow> distinct (leased (s\<lparr>inProgress := AList.update k v (inProgress s)\<rparr>))"
  by (simp add: leased_def distinct_update)

lemma map_of_inProgress_None: "(map_of (inProgress s) i = None) = (i \<notin> set (leased s))"
  by (simp add: leased_def map_of_eq_None_iff)

lemma set_leased_dropLease [simp]: "set (leased (dropLease i s)) = set (leased s) - {i}"
  by (auto simp: dropLease_def map_of_inProgress_None split: option.splits)

lemma dropLease_frame [simp]:
  "queues (dropLease i s) = queues s" "jobsCache (dropLease i s) = jobsCache s"
  "resultsCache (dropLease i s) = resultsCache s" "retries (dropLease i s) = retries s"
  "database (dropLease i s) = database s" "maxRetries (dropLease i s) = maxRetries s"
  by (simp_all add: dropLease_def split: option.splits)

lemma set_leased_timeoutLoop: "set (leased (timeoutLoop now entries s)) \<subseteq> set (leased s)"
  by (auto simp: leased_def inProgress_timeoutLoop)

subsection \<open>Invariant 2\<close>

lemma lease_inv_dispatchedState:
  "lease_inv s \<Longrightarrow>
   lease_inv (dispatchedState now t item q s) =
     (jobsCache s (job_id item) \<noteq> None \<and> resultsCache s (job_id item) = None)"
proof -
  assume a: "lease_inv s"
  have "set (leased (dispatchedState now t item q s)) = insert (job_id item) (set (leased s))"
    using dom_update [of "job_id item" _ "inProgress s"] by (simp add: dispatchedState_def leased_def)
  moreover have "jobsCache (dispatchedState now t item q s) = jobsCache s"
    "resultsCache (dispatchedState now t item q s) = resultsCache s"
    by (simp_all add: dispatchedState_def)
  ultimately show ?thesis using a by (auto simp: lease_inv_def)
qed

lemma lease_inv_getProvingJob:
  "lease_inv s \<Longrightarrow>
   lease_inv (snd (getProvingJob now f s)) =
     (\<forall>item. fst (getProvingJob now f s) = Some item \<longrightarrow>
        jobsCache s (job_id item) \<noteq> None \<and> resultsCache s (job_id item) = None)"
  using getFromQueues_cases [of now "allowedProofs f" s]
  by (auto simp: getProvingJob_def lease_inv_dispatchedState)

lemma lease_inv_shrink:
  assumes "lease_inv s" and "set (leased s') \<subseteq> set (leased s)"
    and "\<And>k. k \<in> set (leased s') \<Longrightarrow>
           (jobsCache s k \<noteq> None \<longrightarrow> jobsCache s' k \<noteq> None) \<and>
           (resultsCache s k = None \<longrightarrow> resultsCache s' k = None)"
  shows "lease_inv s'"
  using assms unfolding lease_inv_def by blast

lemma leased_same: "inProgress s' = inProgress s \<Longrightarrow> leased s' = leased s"
  by (simp add: leased_def)

lemma lease_inv_enqueue: "lease_inv s \<Longrightarrow> lease_inv (snd (enqueueProvingJob ok job s))"
proof (erule lease_inv_shrink)
  show "set (leased (snd (enqueueProvingJob ok job s))) \<subseteq> set (leased s)"
    by (simp add: enqueueProvingJob_def enqueueJobInternal_def leased_def split: option.splits)
  show "(jobsCache s k \<noteq> None \<longrightarrow> jobsCache (snd (enqueueProvingJob ok job s)) k \<noteq> None) \<and>
        (resultsCache s k = None \<longrightarrow> resultsCache (snd (enqueueProvingJob ok job s)) k = None)" for k
    by (simp add: enqueueProvingJob_def enqueueJobInternal_def split: option.splits)
qed

lemma lease_inv_cancel: "lease_inv s \<Longrightarrow> lease_inv (snd (removeAndCancelProvingJob ok i s))"
proof (erule lease_inv_shrink)
  have l: "leased (snd (removeAndCancelProvingJob ok i s)) =
      (if ok then removeAll i (leased s) else leased s)"
    by (simp add: removeAndCancelProvingJob_def leased_def delete_keys)
  show "set (leased (snd (removeAndCancelProvingJob ok i s))) \<subseteq> set (leased s)"
    unfolding l by auto
  show "(jobsCache s k \<noteq> None \<longrightarrow> jobsCache (snd (removeAndCancelProvingJob ok i s)) k \<noteq> None) \<and>
        (resultsCache s k = None \<longrightarrow> resultsCache (snd (removeAndCancelProvingJob ok i s)) k = None)"
    if "k \<in> set (leased (snd (removeAndCancelProvingJob ok i s)))" for k
    using that unfolding l by (auto simp: removeAndCancelProvingJob_def)
qed

lemma leased_success:
  "set (leased (snd (reportProvingJobSuccess ok i v s))) =
     (if jobsCache s i = None then set (leased s) else set (leased s) - {i})"
proof -
  have "leased (dropLease i s\<lparr>database := d, resultsCache := r\<rparr>) = leased (dropLease i s)" for d r
    by (simp add: leased_def)
  then show ?thesis
    by (simp add: reportProvingJobSuccess_def Let_def split: option.splits)
qed

lemma lease_inv_success: "lease_inv s \<Longrightarrow> lease_inv (snd (reportProvingJobSuccess ok i v s))"
proof (erule lease_inv_shrink)
  show "set (leased (snd (reportProvingJobSuccess ok i v s))) \<subseteq> set (leased s)"
    unfolding leased_success by auto
  show "(jobsCache s k \<noteq> None \<longrightarrow> jobsCache (snd (reportProvingJobSuccess ok i v s)) k \<noteq> None) \<and>
        (resultsCache s k = None \<longrightarrow> resultsCache (snd (reportProvingJobSuccess ok i v s)) k = None)"
    if "k \<in> set (leased (snd (reportProvingJobSuccess ok i v s)))" for k
    using that unfolding leased_success
    by (auto simp: reportProvingJobSuccess_def Let_def split: option.splits if_splits)
qed

lemma leased_error:
  "set (leased (snd (reportProvingJobError ok i e r s))) =
     (if jobsCache s i = None then set (leased s) else set (leased s) - {i})"
proof -
  have "leased (dropLease i s\<lparr>database := d, resultsCache := c\<rparr>) = leased (dropLease i s)"
    "leased (enqueueJobInternal item (dropLease i s\<lparr>retries := n\<rparr>)) = leased (dropLease i s)"
    for d c item n
    by (simp_all add: leased_def enqueueJobInternal_def)
  then show ?thesis
    by (simp add: reportProvingJobError_def Let_def split: option.splits)
qed

lemma lease_inv_error: "lease_inv s \<Longrightarrow> lease_inv (snd (reportProvingJobError ok i e r s))"
proof (erule lease_inv_shrink)
  show "set (leased (snd (reportProvingJobError ok i e r s))) \<subseteq> set (leased s)"
    unfolding leased_error by auto
  show "(jobsCache s k \<noteq> None \<longrightarrow> jobsCache (snd (reportProvingJobError ok i e r s)) k \<noteq> None) \<and>
        (resultsCache s k = None \<longrightarrow> resultsCache (snd (reportProvingJobError ok i e r s)) k = None)"
    if "k \<in> set (leased (snd (reportProvingJobError ok i e r s)))" for k
    using that unfolding leased_error
    by (auto simp: reportProvingJobError_def Let_def enqueueJobInternal_def
        split: option.splits if_splits)
qed

lemma lease_inv_timeoutCheck: "lease_inv s \<Longrightarrow> lease_inv (timeoutCheck now s)"
proof (erule lease_inv_shrink)
  show "set (leased (timeoutCheck now s)) \<subseteq> set (leased s)"
    by (simp add: timeoutCheck_def set_leased_timeoutLoop)
  show "(jobsCache s k \<noteq> None \<longrightarrow> jobsCache (timeoutCheck now s) k \<noteq> None) \<and>
        (resultsCache s k = None \<longrightarrow> resultsCache (timeoutCheck now s) k = None)" for k
    by (simp add: timeoutCheck_def timeoutLoop_frame)
qed

lemma lease_inv_progress:
  "lease_inv s \<Longrightarrow>
   lease_inv (snd (reportProvingJobProgress now i f s)) =
     (\<forall>item. fst (reportProvingJobProgress now i f s) = Some item \<longrightarrow>
        jobsCache s (job_id item) \<noteq> None \<and> resultsCache s (job_id item) = None)"
proof (cases "map_of (inProgress s) i")
  case None
  assume a: "lease_inv s"
  show ?thesis
  proof (cases f)
    case None
    with a \<open>map_of (inProgress s) i = None\<close> show ?thesis
      by (simp add: reportProvingJobProgress_def)
  next
    case (Some flt)
    with lease_inv_getProvingJob [OF a, of now flt] \<open>map_of (inProgress s) i = None\<close> show ?thesis
      by (simp add: reportProvingJobProgress_def)
  qed
next
  case (Some m)
  assume a: "lease_inv s"
  from Some have "i \<in> set (leased s)"
    using map_of_inProgress_None [of s i] by simp
  then have "set (leased (s\<lparr>inProgress := AList.update i (m\<lparr>lastUpdatedAt := now\<rparr>) (inProgress s)\<rparr>)) =
      set (leased s)"
    by auto
  with a Some show ?thesis
    by (simp add: reportProvingJobProgress_def lease_inv_def)
qed

lemma lease_inv_exec:
  "lease_inv s \<Longrightarrow>
   lease_inv (exec op s) =
     (\<forall>item. returned_job op s = Some item \<longrightarrow>
        jobsCache s (job_id item) \<noteq> None \<and> resultsCache s (job_id item) = None)"
  by (cases op)
    (simp_all add: lease_inv_enqueue lease_inv_cancel lease_inv_success lease_inv_error
      lease_inv_timeoutCheck lease_inv_getProvingJob lease_inv_progress)

lemma lease_inv_newBroker: "lease_inv (newBroker db tmo mr)"
  by (simp add: lease_inv_def leased_def newBroker_def)

lemma lease_inv_recovered: "lease_inv (recovered pairs db tmo mr)"
  using start_frame [of pairs "newBroker db tmo mr"]
  by (simp add: lease_inv_def leased_def recovered_def newBroker_def)

text \<open>
  Claim C3, counterexample. A job is enqueued and cancelled; the cancellation leaves it
  in its queue, and the next acquire hands it out: its id holds a lease and is not in
  \<open>jobsCache\<close>. A job is enqueued, acquired, reclaimed by the sweep and then reported
  done by the first worker; it is still queued, and the next acquire hands it out: its id
  holds a lease and has a result.
\<close>

theorem C3_counterexample:
  "leased (run [Enqueue True jobA, Cancel True ''1'', Acquire 0 noFilter] freshBroker) = [''1''] \<and>
   jobsCache (run [Enqueue True jobA, Cancel True ''1'', Acquire 0 noFilter] freshBroker) ''1'' = None \<and>
   \<not> lease_inv (run [Enqueue True jobA, Cancel True ''1'', Acquire 0 noFilter] freshBroker) \<and>
   leased (run [Enqueue True jobA, Acquire 0 noFilter, Sweep 30000, ReportSuccess True ''1'' ''v1'',
                Acquire 30001 noFilter] freshBroker) = [''1''] \<and>
   resultsCache (run [Enqueue True jobA, Acquire 0 noFilter, Sweep 30000, ReportSuccess True ''1'' ''v1'',
                Acquire 30001 noFilter] freshBroker) ''1'' = Some (ResultValue ''v1'') \<and>
   \<not> lease_inv (run [Enqueue True jobA, Acquire 0 noFilter, Sweep 30000, ReportSuccess True ''1'' ''v1'',
                Acquire 30001 noFilter] freshBroker)"
  by (simp add: lease_inv_def leased_def scenario_defs op_defs allowedProofs_noFilter
      PROOF_TYPES_IN_PRIORITY_ORDER_def)

text \<open>
  Claim C3, as amended. Let every leased id be in \<open>jobsCache\<close> and without a result
  before an operation. After the operation this holds again exactly when the job that
  the operation hands to a worker, if any, is in \<open>jobsCache\<close> and without a result. So
  enqueue, cancel, status, report of success, report of failure, the sweep, and a
  heartbeat that returns no job maintain the property; \<open>getProvingJob\<close>, and a heartbeat
  that falls through to it, hand out the head of a queue without looking at
  \<open>jobsCache\<close> or \<open>resultsCache\<close>. The property holds for a new broker and after
  \<open>start\<close> on a new broker.
\<close>

theorem C3_lease_invariant:
  "(lease_inv s \<longrightarrow>
      lease_inv (exec op s) =
        (\<forall>item. returned_job op s = Some item \<longrightarrow>
           jobsCache s (job_id item) \<noteq> None \<and> resultsCache s (job_id item) = None)) \<and>
   lease_inv (newBroker db tmo mr) \<and>
   lease_inv (recovered pairs db tmo mr)"
  using lease_inv_exec [of s op] lease_inv_newBroker lease_inv_recovered by blast

theorem C3_witness:
  "lease_inv queuedA \<and>
   returned_job (Acquire 0 noFilter) queuedA = Some jobA \<and>
   jobsCache queuedA (job_id jobA) \<noteq> None \<and> resultsCache queuedA (job_id jobA) = None \<and>
   lease_inv (exec (Acquire 0 noFilter) queuedA) \<and>
   lease_inv (exec (ReportSuccess True ''1'' ''v1'') (exec (Acquire 0 noFilter) queuedA))"
proof -
  have a: "lease_inv queuedA"
    by (simp add: lease_inv_def leased_def queuedA_def scenario_defs op_defs)
  have r: "returned_job (Acquire 0 noFilter) queuedA = Some jobA"
    by (simp add: queuedA_def scenario_defs op_defs allowedProofs_noFilter
        PROOF_TYPES_IN_PRIORITY_ORDER_def)
  have j: "jobsCache queuedA (job_id jobA) \<noteq> None" "resultsCache queuedA (job_id jobA) = None"
    by (simp_all add: queuedA_def scenario_defs op_defs)
  from C3_lease_invariant [of queuedA "Acquire 0 noFilter"] a r j
  have b: "lease_inv (exec (Acquire 0 noFilter) queuedA)" by simp
  have "returned_job (ReportSuccess True ''1'' ''v1'') (exec (Acquire 0 noFilter) queuedA) = None"
    by simp
  with C3_lease_invariant [of "exec (Acquire 0 noFilter) queuedA" "ReportSuccess True ''1'' ''v1''"] b
  have c: "lease_inv (exec (ReportSuccess True ''1'' ''v1'') (exec (Acquire 0 noFilter) queuedA))"
    by simp
  show ?thesis by (intro conjI a r j b c)
qed

section \<open>Ids queued once\<close>

lemma queue_inv_same:
  "queues s' = queues s \<Longrightarrow> jobsCache s' = jobsCache s \<Longrightarrow> inProgress s' = inProgress s \<Longrightarrow>
   queue_inv s' = queue_inv s"
  by (simp add: queue_inv_def queued_once_def queued_def leased_def)

lemma queue_inv_unlease:
  assumes "queue_inv s" and "queues s' = queues s" and "jobsCache s' = jobsCache s"
    and "set (leased s') \<subseteq> set (leased s)" and "distinct (leased s')"
  shows "queue_inv s'"
proof -
  have "queued s' = queued s" using assms(2) by (simp add: queued_def)
  with assms show ?thesis
    unfolding queue_inv_def queued_once_def by auto
qed

lemma queue_inv_leasedD:
  "queue_inv s \<Longrightarrow> i \<in> set (leased s) \<Longrightarrow> i \<notin> set (map job_id (queued s))"
  unfolding queue_inv_def by blast

lemma queue_inv_indexedD:
  "queue_inv s \<Longrightarrow> jobsCache s i = Some j \<Longrightarrow> job_id j = i"
  unfolding queue_inv_def by blast

lemma mset_map_add:
  "mset xs = add_mset x (mset ys) \<Longrightarrow> mset (map f xs) = add_mset (f x) (mset (map f ys))"
  by (metis image_mset_add_mset mset_map)

lemma ids_enqueueJobInternal:
  "mset (map job_id (queued (enqueueJobInternal j s))) = add_mset (job_id j) (mset (map job_id (queued s)))"
  using mset_queued_enqueueJobInternal [of j s] by (rule mset_map_add)

lemma queue_inv_enqueueJobInternal:
  assumes "queue_inv s"
    and "job_id j \<notin> set (map job_id (queued s))" and "job_id j \<notin> set (leased s)"
  shows "queue_inv (enqueueJobInternal j s)"
proof -
  let ?s = "enqueueJobInternal j s"
  have f: "jobsCache ?s = jobsCache s" "leased ?s = leased s"
    by (simp_all add: enqueueJobInternal_def leased_def)
  have m: "mset (map job_id (queued ?s)) = mset (job_id j # map job_id (queued s))"
    using ids_enqueueJobInternal [of j s] by simp
  then have i: "set (map job_id (queued ?s)) = insert (job_id j) (set (map job_id (queued s)))"
    by (metis list.simps(15) mset_eq_setD)
  have d: "distinct (map job_id (queued ?s))"
    using mset_eq_imp_distinct_iff [OF m] assms(1,2) by (simp add: queue_inv_def queued_once_def)
  show ?thesis
    unfolding queue_inv_def queued_once_def f i
    using assms d unfolding queue_inv_def queued_once_def by auto
qed

lemma queue_inv_dispatchedState:
  assumes "queue_inv s" and "queues s t = item # q"
  shows "queue_inv (dispatchedState now t item q s)"
proof -
  let ?s = "dispatchedState now t item q s"
  have f: "jobsCache ?s = jobsCache s"
    "set (leased ?s) = insert (job_id item) (set (leased s))"
    using dom_update [of "job_id item" _ "inProgress s"]
    by (simp_all add: dispatchedState_def leased_def)
  have dl: "distinct (leased ?s)"
    using assms(1) by (simp add: queue_inv_def dispatchedState_def leased_def distinct_update)
  have m: "mset (queued s) = add_mset item (mset (queued ?s))"
    using assms(2) by (rule mset_queued_dispatchedState)
  from mset_map_add [OF m, of job_id]
  have mi: "mset (map job_id (queued s)) = mset (job_id item # map job_id (queued ?s))"
    by simp
  from mset_eq_imp_distinct_iff [OF mi] assms(1)
  have d: "distinct (map job_id (queued ?s))" "job_id item \<notin> set (map job_id (queued ?s))"
    by (simp_all add: queue_inv_def queued_once_def)
  from mi have sub: "set (map job_id (queued ?s)) \<subseteq> set (map job_id (queued s))"
    by (metis list.simps(15) mset_eq_setD subset_insertI)
  show ?thesis
    unfolding queue_inv_def queued_once_def f
    using assms(1) d dl sub unfolding queue_inv_def queued_once_def by auto
qed

lemma queue_inv_getFromQueues: "queue_inv s \<Longrightarrow> queue_inv (snd (getFromQueues now ts s))"
  using getFromQueues_cases [of now ts s] by (auto simp: queue_inv_dispatchedState)

lemma queue_inv_dropLease:
  assumes "queue_inv s"
  shows "queue_inv (dropLease i s)"
proof (rule queue_inv_unlease [OF assms])
  show "distinct (leased (dropLease i s))"
    using assms by (simp add: dropLease_def queue_inv_def distinct_removeAll split: option.splits)
qed simp_all

lemma queue_inv_enqueue:
  assumes "queue_inv s" and "admissible (Enqueue ok job) s"
  shows "queue_inv (snd (enqueueProvingJob ok job s))"
proof (cases "jobsCache s (job_id job) = None \<and> ok")
  case False
  with assms(1) show ?thesis by (auto simp: enqueueProvingJob_def split: option.splits)
next
  case True
  let ?s1 = "s\<lparr>database := addProvingJob job (database s),
                jobsCache := (jobsCache s)(job_id job \<mapsto> job)\<rparr>"
  from assms(2) True have nq: "job_id job \<notin> set (map job_id (queued s))"
    and nl: "job_id job \<notin> set (leased s)"
    by simp_all
  have q1: "queued ?s1 = queued s" "leased ?s1 = leased s"
    by (simp_all add: queued_def leased_def)
  have "job_id j = i" if "jobsCache ?s1 i = Some j" for i j
    using that queue_inv_indexedD [OF assms(1), of i j] by (cases "i = job_id job") simp_all
  then have "queue_inv ?s1"
    unfolding queue_inv_def queued_once_def q1
    using assms(1) unfolding queue_inv_def queued_once_def by blast
  then have "queue_inv (enqueueJobInternal job ?s1)"
    by (rule queue_inv_enqueueJobInternal) (use nq nl in \<open>simp_all add: q1\<close>)
  with True show ?thesis by (simp add: enqueueProvingJob_def)
qed

lemma queue_inv_cancel:
  assumes "queue_inv s"
  shows "queue_inv (snd (removeAndCancelProvingJob ok i s))"
proof (cases ok)
  case False
  with assms show ?thesis by (simp add: removeAndCancelProvingJob_def)
next
  case True
  let ?s = "snd (removeAndCancelProvingJob True i s)"
  have f: "queued ?s = queued s" "leased ?s = removeAll i (leased s)"
    "jobsCache ?s = (jobsCache s)(i := None)"
    by (simp_all add: removeAndCancelProvingJob_def queued_def leased_def delete_keys)
  have "queue_inv ?s"
    unfolding queue_inv_def queued_once_def f
    using assms unfolding queue_inv_def queued_once_def
    by (auto simp: distinct_removeAll)
  with True show ?thesis by simp
qed

lemma queue_inv_success:
  assumes "queue_inv s"
  shows "queue_inv (snd (reportProvingJobSuccess ok i v s))"
proof -
  have "queue_inv (dropLease i s\<lparr>database := d, resultsCache := c\<rparr>) = queue_inv (dropLease i s)" for d c
    by (rule queue_inv_same) simp_all
  with assms queue_inv_dropLease [OF assms, of i] show ?thesis
    by (simp add: reportProvingJobSuccess_def Let_def split: option.splits)
qed

lemma queue_inv_error:
  assumes "queue_inv s" and "admissible (ReportFailure ok i e r) s"
  shows "queue_inv (snd (reportProvingJobError ok i e r s))"
proof (cases "jobsCache s i")
  case None
  with assms show ?thesis by (simp add: reportProvingJobError_def)
next
  case (Some item)
  have d: "queue_inv (dropLease i s)" by (rule queue_inv_dropLease [OF assms(1)])
  have t: "queue_inv (dropLease i s\<lparr>database := d, resultsCache := c\<rparr>)" for d c
    using d queue_inv_same [of "dropLease i s\<lparr>database := d, resultsCache := c\<rparr>" "dropLease i s"]
    by simp
  show ?thesis
  proof (cases "r \<and> retriesOf s i + 1 < maxRetries s")
    case False
    with Some d t show ?thesis
      by (auto simp: reportProvingJobError_def Let_def)
  next
    case True
    with assms(2) Some have nq: "i \<notin> set (map job_id (queued s))" by simp
    from queue_inv_indexedD [OF assms(1) Some] have k: "job_id item = i" .
    let ?s1 = "dropLease i s\<lparr>retries := (retries (dropLease i s))(i \<mapsto> retriesOf s i + 1)\<rparr>"
    have "queue_inv ?s1"
      using d queue_inv_same [of ?s1 "dropLease i s"] by simp
    then have "queue_inv (enqueueJobInternal item ?s1)"
    proof (rule queue_inv_enqueueJobInternal)
      have "queued ?s1 = queued s" by (simp add: queued_def)
      then show "job_id item \<notin> set (map job_id (queued ?s1))" using k nq by simp
      have "leased ?s1 = leased (dropLease i s)" by (simp add: leased_def)
      then show "job_id item \<notin> set (leased ?s1)" using k by simp
    qed
    with True Some show ?thesis
      by (simp add: reportProvingJobError_def Let_def)
  qed
qed

lemma queue_inv_progress:
  assumes "queue_inv s"
  shows "queue_inv (snd (reportProvingJobProgress now i f s))"
proof (cases "map_of (inProgress s) i")
  case None
  show ?thesis
  proof (cases f)
    case None
    with assms \<open>map_of (inProgress s) i = None\<close> show ?thesis
      by (simp add: reportProvingJobProgress_def)
  next
    case (Some flt)
    with queue_inv_getFromQueues [OF assms, of now "allowedProofs flt"]
      \<open>map_of (inProgress s) i = None\<close>
    show ?thesis
      by (simp add: reportProvingJobProgress_def getProvingJob_def)
  qed
next
  case (Some m)
  let ?s = "s\<lparr>inProgress := AList.update i (m\<lparr>lastUpdatedAt := now\<rparr>) (inProgress s)\<rparr>"
  from Some have l: "i \<in> set (leased s)"
    using map_of_inProgress_None [of s i] by simp
  have "queue_inv ?s"
  proof (rule queue_inv_unlease [OF assms])
    show "queues ?s = queues s" by simp
    show "jobsCache ?s = jobsCache s" by simp
    show "set (leased ?s) \<subseteq> set (leased s)"
      unfolding set_leased_update using l by blast
    show "distinct (leased ?s)"
      using assms unfolding queue_inv_def by (intro distinct_leased_update) blast
  qed
  with Some show ?thesis by (simp add: reportProvingJobProgress_def)
qed

lemma queue_inv_timeoutStep:
  assumes "queue_inv s" and "i \<in> set (leased s)"
  shows "queue_inv (timeoutStep now (i, m) s)"
proof -
  let ?s1 = "s\<lparr>inProgress := AList.delete i (inProgress s)\<rparr>"
  have u: "queue_inv ?s1"
    using assms(1)
    by (rule queue_inv_unlease) (use assms(1) in \<open>auto simp: queue_inv_def distinct_removeAll\<close>)
  have nq: "i \<notin> set (map job_id (queued s))"
    by (rule queue_inv_leasedD [OF assms])
  show ?thesis
  proof (cases "jobsCache s i")
    case None
    with u show ?thesis by (simp add: timeoutStep_def)
  next
    case (Some item)
    from queue_inv_indexedD [OF assms(1) Some] have k: "job_id item = i" .
    have "queue_inv (enqueueJobInternal item ?s1)"
      using u
    proof (rule queue_inv_enqueueJobInternal)
      have "queued ?s1 = queued s" by (simp add: queued_def)
      then show "job_id item \<notin> set (map job_id (queued ?s1))" using k nq by simp
      show "job_id item \<notin> set (leased ?s1)" using k by simp
    qed
    with assms(1) Some show ?thesis
      by (simp add: timeoutStep_def)
  qed
qed

lemma leased_timeoutStep:
  "set (leased s) - {i} \<subseteq> set (leased (timeoutStep now (i, m) s))"
proof -
  have "leased (enqueueJobInternal item (s\<lparr>inProgress := AList.delete i (inProgress s)\<rparr>)) =
      removeAll i (leased s)" for item
    by (simp add: enqueueJobInternal_def leased_def delete_keys)
  then show ?thesis
    by (cases "jobsCache s i") (auto simp: timeoutStep_def)
qed

lemma queue_inv_timeoutLoop:
  "queue_inv s \<Longrightarrow> distinct (map fst entries) \<Longrightarrow> set (map fst entries) \<subseteq> set (leased s) \<Longrightarrow>
   queue_inv (timeoutLoop now entries s)"
proof (induction entries arbitrary: s)
  case Nil
  then show ?case by simp
next
  case (Cons entry entries)
  obtain i m where e: "entry = (i, m)" by (cases entry)
  from Cons.prems e have i: "i \<in> set (leased s)" "i \<notin> set (map fst entries)"
    "distinct (map fst entries)" "set (map fst entries) \<subseteq> set (leased s)"
    by auto
  have "queue_inv (timeoutStep now (i, m) s)"
    by (rule queue_inv_timeoutStep [OF Cons.prems(1) i(1)])
  moreover have "set (map fst entries) \<subseteq> set (leased (timeoutStep now (i, m) s))"
    using leased_timeoutStep [of s i now m] i(2,4) by auto
  ultimately show ?case
    using Cons.IH [of "timeoutStep now (i, m) s"] i(3) e by simp
qed

lemma queue_inv_timeoutCheck: "queue_inv s \<Longrightarrow> queue_inv (timeoutCheck now s)"
  unfolding timeoutCheck_def
  by (rule queue_inv_timeoutLoop) (simp_all add: queue_inv_def leased_def)

lemma queue_inv_exec:
  assumes "queue_inv s" and "admissible op s"
  shows "queue_inv (exec op s)"
proof (cases op)
  case (Enqueue ok job)
  with assms show ?thesis by (simp add: queue_inv_enqueue del: admissible.simps)
next
  case (ReportFailure ok i e r)
  with assms show ?thesis by (simp add: queue_inv_error del: admissible.simps)
qed (use assms(1) in \<open>simp_all add: queue_inv_cancel queue_inv_success queue_inv_progress
      queue_inv_timeoutCheck getProvingJob_def queue_inv_getFromQueues\<close>)

lemma queue_inv_run: "queue_inv s \<Longrightarrow> admissible_run ops s \<Longrightarrow> queue_inv (run ops s)"
  by (induction ops arbitrary: s) (simp_all add: queue_inv_exec)

lemma queue_inv_newBroker: "queue_inv (newBroker db tmo mr)"
  by (simp add: queue_inv_def queued_once_def queued_def leased_def newBroker_def
      ProvingRequestType_values_def)

lemma queue_inv_start:
  "queue_inv s \<Longrightarrow> distinct (storedIds pairs) \<Longrightarrow>
   (\<forall>i \<in> set (storedIds pairs). i \<notin> set (map job_id (queued s)) \<and> i \<notin> set (leased s)) \<Longrightarrow>
   queue_inv (start pairs s)"
proof (induction pairs arbitrary: s)
  case Nil
  then show ?case by simp
next
  case (Cons entry rest)
  obtain item res where e: "entry = (item, res)" by (cases entry)
  from Cons.prems(2,3) e have d: "job_id item \<notin> set (storedIds rest)" "distinct (storedIds rest)"
    and nq: "job_id item \<notin> set (map job_id (queued s))" and nl: "job_id item \<notin> set (leased s)"
    and r: "\<forall>i \<in> set (storedIds rest). i \<notin> set (map job_id (queued s)) \<and> i \<notin> set (leased s)"
    by (simp_all add: storedIds_def)
  let ?s1 = "s\<lparr>jobsCache := (jobsCache s)(job_id item \<mapsto> item)\<rparr>"
  have q1: "queued ?s1 = queued s" "leased ?s1 = leased s"
    by (simp_all add: queued_def leased_def)
  have "job_id j = i" if "jobsCache ?s1 i = Some j" for i j
    using that queue_inv_indexedD [OF Cons.prems(1), of i j] by (cases "i = job_id item") simp_all
  then have i1: "queue_inv ?s1"
    unfolding queue_inv_def queued_once_def q1
    using Cons.prems(1) unfolding queue_inv_def queued_once_def by blast
  show ?case
  proof (cases res)
    case None
    let ?s2 = "enqueueJobInternal item ?s1"
    have "queue_inv ?s2"
      using i1 by (rule queue_inv_enqueueJobInternal) (use nq nl in \<open>simp_all add: q1\<close>)
    moreover have "\<forall>i \<in> set (storedIds rest). i \<notin> set (map job_id (queued ?s2)) \<and> i \<notin> set (leased ?s2)"
    proof
      fix i assume m: "i \<in> set (storedIds rest)"
      with d(1) have ne: "i \<noteq> job_id item" by metis
      have "mset (map job_id (queued ?s2)) = mset (job_id item # map job_id (queued ?s1))"
        using ids_enqueueJobInternal [of item ?s1] by simp
      then have "set (map job_id (queued ?s2)) = insert (job_id item) (set (map job_id (queued s)))"
        unfolding q1 by (metis list.simps(15) mset_eq_setD)
      moreover have "leased ?s2 = leased s" by (simp add: enqueueJobInternal_def leased_def)
      ultimately show "i \<notin> set (map job_id (queued ?s2)) \<and> i \<notin> set (leased ?s2)"
        using r m ne by auto
    qed
    ultimately have "queue_inv (start rest ?s2)"
      using d(2) by (intro Cons.IH)
    then show ?thesis unfolding e None start_None .
  next
    case (Some v)
    let ?s2 = "s\<lparr>jobsCache := (jobsCache s)(job_id item \<mapsto> item),
                  resultsCache := (resultsCache s)(job_id item \<mapsto> v)\<rparr>"
    have "queue_inv ?s2"
      using i1 queue_inv_same [of ?s2 ?s1] by simp
    moreover have "\<forall>i \<in> set (storedIds rest). i \<notin> set (map job_id (queued ?s2)) \<and> i \<notin> set (leased ?s2)"
      using r by (simp add: queued_def leased_def)
    ultimately have "queue_inv (start rest ?s2)"
      using d(2) by (intro Cons.IH)
    then show ?thesis unfolding e Some start_Some .
  qed
qed

lemma queue_inv_recovered:
  "distinct (storedIds pairs) \<Longrightarrow> queue_inv (recovered pairs db tmo mr)"
  unfolding recovered_def
  by (rule queue_inv_start)
    (simp_all add: queue_inv_newBroker, simp add: newBroker_def queued_def leased_def
      ProvingRequestType_values_def)

text \<open>
  Claim C4, counterexample. A job is enqueued and acquired, and its failure is reported
  twice with a retry: the second report finds no lease and pushes the job again, so the
  queue of its class holds it twice. The same happens when the sweep has put the job back
  before the report arrives; when a job is cancelled while queued and enqueued again; and
  when a job is cancelled while queued, handed out, enqueued again and then reclaimed by
  the sweep.
\<close>

theorem C4_counterexample:
  "queues (run [Enqueue True jobA, Acquire 0 noFilter,
                ReportFailure True ''1'' ''boom'' True,
                ReportFailure True ''1'' ''boom'' True] freshBroker) PUBLIC_VM = [jobA, jobA] \<and>
   \<not> queued_once (run [Enqueue True jobA, Acquire 0 noFilter,
                ReportFailure True ''1'' ''boom'' True,
                ReportFailure True ''1'' ''boom'' True] freshBroker) \<and>
   \<not> queued_once (run [Enqueue True jobA, Acquire 0 noFilter, Sweep 30000,
                ReportFailure True ''1'' ''boom'' True] freshBroker) \<and>
   \<not> queued_once (run [Enqueue True jobA, Cancel True ''1'', Enqueue True jobA] freshBroker) \<and>
   \<not> queued_once (run [Enqueue True jobA, Cancel True ''1'', Acquire 0 noFilter, Enqueue True jobA,
                Sweep 30000] freshBroker)"
  by (simp add: queued_once_def queued_def ProvingRequestType_values_def scenario_defs op_defs
      allowedProofs_noFilter PROOF_TYPES_IN_PRIORITY_ORDER_def)

text \<open>
  Claim C4, as amended. From a state in which \<open>queue_inv\<close> holds, as it does for a new
  broker and after \<open>start\<close> on a new broker over an enumeration that lists every id
  once, every sequence of operations leaves every id in at most one place of the queues,
  provided that no enqueue indexes a new id while that id is still queued or leased, and
  no failure report puts a job back while its id is queued. Cancellations, acquires,
  heartbeats, success reports, sweeps and all other enqueues and failure reports are
  unrestricted.
\<close>

theorem C4_queued_once:
  "(queue_inv s \<and> admissible_run ops s \<longrightarrow> queue_inv (run ops s) \<and> queued_once (run ops s)) \<and>
   queue_inv (newBroker db tmo mr) \<and>
   (distinct (storedIds pairs) \<longrightarrow> queue_inv (recovered pairs db tmo mr))"
proof -
  have "queue_inv (run ops s) \<and> queued_once (run ops s)"
    if "queue_inv s \<and> admissible_run ops s"
  proof -
    from that have "queue_inv (run ops s)" by (simp add: queue_inv_run)
    then show ?thesis unfolding queue_inv_def by blast
  qed
  then show ?thesis
    using queue_inv_newBroker queue_inv_recovered by blast
qed

theorem C4_witness:
  "queue_inv (newBroker emptyDatabase 30000 3) \<and>
   admissible_run retriedTwice (newBroker emptyDatabase 30000 3) \<and>
   queued_once (run retriedTwice (newBroker emptyDatabase 30000 3)) \<and>
   queues (run retriedTwice (newBroker emptyDatabase 30000 3)) PUBLIC_VM = [jobA] \<and>
   queues (run retriedTwice (newBroker emptyDatabase 30000 3)) BLOCK_ROOT_ROLLUP = [] \<and>
   admissible_run [Enqueue True jobA, Cancel True ''1''] (newBroker emptyDatabase 30000 3) \<and>
   queued_once (run [Enqueue True jobA, Cancel True ''1''] (newBroker emptyDatabase 30000 3))"
proof -
  have a: "admissible_run retriedTwice (newBroker emptyDatabase 30000 3)"
    "admissible_run [Enqueue True jobA, Cancel True ''1''] (newBroker emptyDatabase 30000 3)"
    by (simp_all add: retriedTwice_def leased_def queued_def ProvingRequestType_values_def
        scenario_defs op_defs allowedProofs_noFilter PROOF_TYPES_IN_PRIORITY_ORDER_def)
  have q: "queues (run retriedTwice (newBroker emptyDatabase 30000 3)) PUBLIC_VM = [jobA]"
    "queues (run retriedTwice (newBroker emptyDatabase 30000 3)) BLOCK_ROOT_ROLLUP = []"
    by (simp_all add: retriedTwice_def scenario_defs op_defs allowedProofs_noFilter
        PROOF_TYPES_IN_PRIORITY_ORDER_def)
  note inst = C4_queued_once [of "newBroker emptyDatabase 30000 3" retriedTwice emptyDatabase 30000 3]
  from inst have i: "queue_inv (newBroker emptyDatabase 30000 3)" by simp
  with inst a(1) have o: "queued_once (run retriedTwice (newBroker emptyDatabase 30000 3))" by simp
  from C4_queued_once [of "newBroker emptyDatabase 30000 3" "[Enqueue True jobA, Cancel True ''1'']"] i a(2)
  have c: "queued_once (run [Enqueue True jobA, Cancel True ''1''] (newBroker emptyDatabase 30000 3))"
    by blast
  show ?thesis by (intro conjI i a o q c)
qed

end
